theory Spec2Isabelle
  imports Complex_Main "HOL-Library.Log_Nat" "HOL-Library.Multiset" "HOL-Library.Word"
begin

section \<open>Python floats (IEEE 754 binary64) by value\<close>

text \<open>
  A Python \<open>float\<close> is a binary64 number. It is modelled by the value it denotes: a
  finite float by the real number it stands for (so \<open>0.0\<close> and \<open>-0.0\<close> coincide, as they
  do under Python's \<open>==\<close>), and the three special values by constructors of their own.
  Every arithmetic operation computes the exact result and rounds it to the nearest
  binary64 number, ties to even (\<open>rnd\<close>); a result of magnitude \<open>2 ^ 1024\<close> or more after
  rounding is an infinity.
\<close>

datatype pyfloat = Fin real | PInf | NInf | NaN

text \<open>Rounding a real to the nearest integer, ties to the even one.\<close>

definition rhe :: "real \<Rightarrow> int" where
  "rhe x = (let f = \<lfloor>x\<rfloor>; d = x - of_int f in
     if d < 1 / 2 then f else if 1 / 2 < d then f + 1 else if even f then f else f + 1)"

text \<open>\<open>ilog2 x\<close> is the integer \<open>k\<close> with \<open>2 powi k \<le> x < 2 powi (k + 1)\<close>, for \<open>x > 0\<close>.\<close>

definition ilog2 :: "real \<Rightarrow> int" where
  "ilog2 x = (if 1 \<le> x then bitlen \<lfloor>x\<rfloor> - 1 else - bitlen (\<lceil>1 / x\<rceil> - 1))"

text \<open>
  The exponent of the unit in the last place of the binade of \<open>x\<close>: 53 significant bits,
  and the subnormal spacing \<open>2 powi -1074\<close> below the smallest normal number.
\<close>

definition expo :: "real \<Rightarrow> int" where
  "expo x = max (ilog2 \<bar>x\<bar> - 52) (- 1074)"

text \<open>The nearest multiple of that unit, ties to the even multiple.\<close>

definition round_to_grid :: "real \<Rightarrow> real" where
  "round_to_grid x = of_int (rhe (x / 2 powi expo x)) * 2 powi expo x"

definition rnd :: "real \<Rightarrow> pyfloat" where
  "rnd x = (if x = 0 then Fin 0 else
     let r = round_to_grid x in
     if 2 ^ 1024 \<le> \<bar>r\<bar> then (if 0 < x then PInf else NInf) else Fin r)"

text \<open>A real is a binary64 number when rounding leaves it alone.\<close>

definition is_float64 :: "real \<Rightarrow> bool" where
  "is_float64 x \<longleftrightarrow> rnd x = Fin x"

definition finite_float :: "pyfloat \<Rightarrow> bool" where
  "finite_float v = (case v of Fin x \<Rightarrow> is_float64 x | _ \<Rightarrow> False)"

section \<open>Python's operations on floats\<close>

datatype error = OverflowError | ZeroDivisionError | IndexError | ValueError | TypeError

definition bind_res :: "error + 'a \<Rightarrow> ('a \<Rightarrow> error + 'b) \<Rightarrow> error + 'b" where
  "bind_res m f = (case m of Inl e \<Rightarrow> Inl e | Inr x \<Rightarrow> f x)"

fun fneg :: "pyfloat \<Rightarrow> pyfloat" where
  "fneg (Fin a) = Fin (- a)"
| "fneg PInf = NInf"
| "fneg NInf = PInf"
| "fneg NaN = NaN"

text \<open>\<open>a + b\<close>: float addition does not check for overflow, the result is an infinity.\<close>

fun fadd :: "pyfloat \<Rightarrow> pyfloat \<Rightarrow> pyfloat" where
  "fadd (Fin a) (Fin b) = rnd (a + b)"
| "fadd NaN _ = NaN"
| "fadd _ NaN = NaN"
| "fadd PInf NInf = NaN"
| "fadd NInf PInf = NaN"
| "fadd PInf _ = PInf"
| "fadd _ PInf = PInf"
| "fadd NInf _ = NInf"
| "fadd _ NInf = NInf"

definition fsub :: "pyfloat \<Rightarrow> pyfloat \<Rightarrow> pyfloat" where
  "fsub a b = fadd a (fneg b)"

text \<open>\<open>a * b\<close>: no overflow check either.\<close>

fun fmul :: "pyfloat \<Rightarrow> pyfloat \<Rightarrow> pyfloat" where
  "fmul (Fin a) (Fin b) = rnd (a * b)"
| "fmul NaN _ = NaN"
| "fmul _ NaN = NaN"
| "fmul (Fin a) PInf = (if a = 0 then NaN else if 0 < a then PInf else NInf)"
| "fmul (Fin a) NInf = (if a = 0 then NaN else if 0 < a then NInf else PInf)"
| "fmul PInf (Fin b) = (if b = 0 then NaN else if 0 < b then PInf else NInf)"
| "fmul NInf (Fin b) = (if b = 0 then NaN else if 0 < b then NInf else PInf)"
| "fmul PInf PInf = PInf"
| "fmul NInf NInf = PInf"
| "fmul PInf NInf = NInf"
| "fmul NInf PInf = NInf"

text \<open>\<open>a / b\<close>: a zero divisor raises \<open>ZeroDivisionError\<close>; overflow gives an infinity.\<close>

fun py_truediv :: "pyfloat \<Rightarrow> pyfloat \<Rightarrow> error + pyfloat" where
  "py_truediv a (Fin b) =
     (if b = 0 then Inl ZeroDivisionError
      else Inr (case a of
                  Fin x \<Rightarrow> rnd (x / b)
                | PInf \<Rightarrow> (if 0 < b then PInf else NInf)
                | NInf \<Rightarrow> (if 0 < b then NInf else PInf)
                | NaN \<Rightarrow> NaN))"
| "py_truediv NaN _ = Inr NaN"
| "py_truediv _ NaN = Inr NaN"
| "py_truediv (Fin x) _ = Inr (Fin 0)"
| "py_truediv _ _ = Inr NaN"

text \<open>
  Converting an \<open>int\<close> operand to \<open>float\<close> (as \<open>sum / n\<close> does with \<open>n\<close>): correctly
  rounded, \<open>OverflowError\<close> when the integer is too large.
\<close>

definition float_of_int :: "int \<Rightarrow> error + pyfloat" where
  "float_of_int n = (case rnd (of_int n) of Fin y \<Rightarrow> Inr (Fin y) | _ \<Rightarrow> Inl OverflowError)"

text \<open>
  \<open>x ** 2\<close>: \<open>float.__pow__\<close> hands finite operands to the C library's \<open>pow\<close> and raises
  \<open>OverflowError\<close> when the result is out of range; an infinite base gives \<open>inf\<close>. Here
  \<open>pow\<close> is the correctly rounded one of the reference platform; \<open>py_pow2_on\<close> below takes
  the \<open>pow\<close> of any platform.
\<close>

fun py_pow2 :: "pyfloat \<Rightarrow> error + pyfloat" where
  "py_pow2 (Fin x) = (case rnd (x * x) of Fin y \<Rightarrow> Inr (Fin y) | _ \<Rightarrow> Inl OverflowError)"
| "py_pow2 PInf = Inr PInf"
| "py_pow2 NInf = Inr PInf"
| "py_pow2 NaN = Inr NaN"

text \<open>The integer square root, rounded down.\<close>

function isqrt :: "int \<Rightarrow> int" where
  "isqrt n = (if n < 1 then 0
              else if n < 4 then 1
              else let r = 2 * isqrt (n div 4) in
                   if (r + 1) * (r + 1) \<le> n then r + 1 else r)"
  by pat_completeness auto
termination
  by (relation "measure nat") auto

declare isqrt.simps [simp del]

text \<open>
  The binary64 number nearest to the square root of \<open>v > 0\<close>. The root is computed to at
  least 55 bits, with half a unit added when it is not exact: that value rounds as the
  root itself does.
\<close>

definition sqrt_rnd :: "real \<Rightarrow> pyfloat" where
  "sqrt_rnd v =
     (let s = nat (max 0 ((111 - ilog2 v) div 2));
          a = \<lfloor>v * 4 ^ s\<rfloor>;
          r = isqrt a;
          q = (if r * r = a \<and> of_int a = v * 4 ^ s then of_int r else of_int r + 1 / 2)
      in rnd (q / 2 ^ s))"

text \<open>
  \<open>x ** 0.5\<close>, with the C library's \<open>pow(x, 0.5)\<close> taken to be correctly rounded (the
  reference platform; \<open>py_pow_half_on\<close> below takes the \<open>pow\<close> of any platform). A negative
  base gives a complex number in Python, which \<open>round(_, 2)\<close> then rejects with
  \<open>TypeError\<close>.
\<close>

fun py_pow_half :: "pyfloat \<Rightarrow> error + pyfloat" where
  "py_pow_half (Fin v) =
     (if v = 0 then Inr (Fin 0)
      else if v < 0 then Inl TypeError
      else if v = 1 then Inr (Fin 1)
      else Inr (sqrt_rnd v))"
| "py_pow_half PInf = Inr PInf"
| "py_pow_half NInf = Inr PInf"
| "py_pow_half NaN = Inr NaN"

text \<open>
  \<open>round(x, 2)\<close>: the exact value of \<open>x\<close> is rounded to two decimals, ties to even, and
  the decimal is converted back to the nearest float; infinities and NaN round to
  themselves.
\<close>

fun py_round2 :: "pyfloat \<Rightarrow> error + pyfloat" where
  "py_round2 (Fin x) =
     (case rnd (of_int (rhe (x * 100)) / 100) of
        Fin y \<Rightarrow> Inr (Fin y)
      | _ \<Rightarrow> Inl OverflowError)"
| "py_round2 v = Inr v"

text \<open>Python's \<open><\<close> on floats: every comparison with NaN is false.\<close>

fun py_lt :: "pyfloat \<Rightarrow> pyfloat \<Rightarrow> bool" where
  "py_lt (Fin a) (Fin b) = (a < b)"
| "py_lt NaN _ = False"
| "py_lt _ NaN = False"
| "py_lt PInf _ = False"
| "py_lt _ NInf = False"
| "py_lt _ _ = True"

definition py_le :: "pyfloat \<Rightarrow> pyfloat \<Rightarrow> bool" where
  "py_le a b \<longleftrightarrow> py_lt a b \<or> (a = b \<and> a \<noteq> NaN)"

section \<open>Python's operations on lists\<close>

text \<open>
  \<open>xs[i]\<close>: an index below zero is taken from the end of the list, and
  \<open>IndexError\<close> is raised outside \<open>-len(xs) \<le> i < len(xs)\<close>.
\<close>

definition py_getitem :: "'a list \<Rightarrow> int \<Rightarrow> error + 'a" where
  "py_getitem xs i =
     (if i < - int (length xs) \<or> int (length xs) \<le> i then Inl IndexError
      else if i < 0 then Inr (xs ! nat (i + int (length xs)))
      else Inr (xs ! nat i))"

text \<open>
  \<open>sorted(xs)\<close> builds a new list and sorts it stably with \<open><\<close> alone. On a list without
  NaN every stable sort gives the same result, here by insertion.
\<close>

fun py_insort :: "pyfloat \<Rightarrow> pyfloat list \<Rightarrow> pyfloat list" where
  "py_insort x [] = [x]"
| "py_insort x (y # ys) = (if py_lt y x then y # py_insort x ys else x # y # ys)"

definition py_sorted :: "pyfloat list \<Rightarrow> pyfloat list" where
  "py_sorted xs = foldr py_insort xs []"

text \<open>\<open>min(xs)\<close> and \<open>max(xs)\<close> keep the first extreme element; an empty list raises.\<close>

fun py_min :: "pyfloat list \<Rightarrow> error + pyfloat" where
  "py_min [] = Inl ValueError"
| "py_min (x # xs) = Inr (foldl (\<lambda>m y. if py_lt y m then y else m) x xs)"

fun py_max :: "pyfloat list \<Rightarrow> error + pyfloat" where
  "py_max [] = Inl ValueError"
| "py_max (x # xs) = Inr (foldl (\<lambda>m y. if py_lt m y then y else m) x xs)"

text \<open>
  \<open>sum(xs)\<close> starts from the integer \<open>0\<close> and adds from left to right, as CPython does up
  to 3.11 (the reference platform; later versions add a compensation term, and
  \<open>calc_mean_on\<close> below takes the sum of any platform).
\<close>

definition py_sum :: "pyfloat list \<Rightarrow> pyfloat" where
  "py_sum xs = foldl fadd (Fin 0) xs"

section \<open>The service\<close>

record DataPoint =
  "value" :: pyfloat
  timestamp :: string

record AnalysisResult =
  mean :: pyfloat
  median :: pyfloat
  std_dev :: pyfloat
  min_val :: pyfloat
  max_val :: pyfloat
  count_val :: int

subsection \<open>\<open>analyze_data\<close>\<close>

text \<open>\<open>mean = sum(values) / n\<close>\<close>

definition calc_mean :: "pyfloat list \<Rightarrow> int \<Rightarrow> error + pyfloat" where
  "calc_mean values n = bind_res (float_of_int n) (py_truediv (py_sum values))"

text \<open>The two branches of the median, on the sorted list.\<close>

definition calc_median :: "pyfloat list \<Rightarrow> int \<Rightarrow> error + pyfloat" where
  "calc_median sorted_values n =
     (if n mod 2 = 0 then
        bind_res (py_getitem sorted_values (n div 2 - 1)) (\<lambda>a.
        bind_res (py_getitem sorted_values (n div 2)) (\<lambda>b.
        py_truediv (fadd a b) (Fin 2)))
      else py_getitem sorted_values (n div 2))"

text \<open>
  \<open>sum((x - mean) ** 2 for x in values)\<close>: the generator is consumed from left to right,
  and the first power that overflows ends the sum with its error.
\<close>

fun sum_sq_dev :: "pyfloat \<Rightarrow> pyfloat \<Rightarrow> pyfloat list \<Rightarrow> error + pyfloat" where
  "sum_sq_dev m acc [] = Inr acc"
| "sum_sq_dev m acc (x # xs) =
     bind_res (py_pow2 (fsub x m)) (\<lambda>t. sum_sq_dev m (fadd acc t) xs)"

definition calc_variance :: "pyfloat list \<Rightarrow> pyfloat \<Rightarrow> int \<Rightarrow> error + pyfloat" where
  "calc_variance values m n =
     bind_res (sum_sq_dev m (Fin 0) values) (\<lambda>s.
     bind_res (float_of_int n) (py_truediv s))"

definition analyze_data :: "DataPoint list \<Rightarrow> error + AnalysisResult" where
  "analyze_data data =
     (let values = map value data in
      if values = [] then
        Inr \<lparr>mean = Fin 0, median = Fin 0, std_dev = Fin 0,
             min_val = Fin 0, max_val = Fin 0, count_val = 0\<rparr>
      else
        let sorted_values = py_sorted values;
            n = int (length values)
        in bind_res (calc_mean values n) (\<lambda>m.
           bind_res (calc_median sorted_values n) (\<lambda>med.
           bind_res (calc_variance values m n) (\<lambda>variance.
           bind_res (py_pow_half variance) (\<lambda>sd.
           bind_res (py_round2 m) (\<lambda>rm.
           bind_res (py_round2 med) (\<lambda>rmed.
           bind_res (py_round2 sd) (\<lambda>rsd.
           bind_res (py_min values) (\<lambda>mn.
           bind_res (py_max values) (\<lambda>mx.
           Inr \<lparr>mean = rm, median = rmed, std_dev = rsd,
                min_val = mn, max_val = mx, count_val = n\<rparr>))))))))))"

subsection \<open>\<open>generate_sample_data\<close>\<close>

text \<open>
  \<open>random.random()\<close> returns \<open>k / 2 ^ 53\<close> for a 53-bit integer \<open>k\<close>; the draws of the
  ambient generator are a parameter, the \<open>i\<close>-th call getting \<open>rs i\<close>.
  \<open>random.uniform(a, b)\<close> is \<open>a + (b - a) * random()\<close>.
\<close>

definition py_random :: "53 word \<Rightarrow> pyfloat" where
  "py_random w = Fin (real (unat w) / 2 ^ 53)"

definition uniform :: "int \<Rightarrow> int \<Rightarrow> pyfloat \<Rightarrow> error + pyfloat" where
  "uniform a b r =
     bind_res (float_of_int (b - a)) (\<lambda>d.
     bind_res (float_of_int a) (\<lambda>a'.
     Inr (fadd a' (fmul d r))))"

text \<open>
  The list comprehension over \<open>range(count)\<close>. A \<open>datetime\<close> is counted in microseconds,
  and \<open>isoformat\<close> (of the standard library) is a parameter.
\<close>

fun gen_points :: "(int \<Rightarrow> string) \<Rightarrow> int \<Rightarrow> (nat \<Rightarrow> 53 word) \<Rightarrow> nat list \<Rightarrow> error + DataPoint list" where
  "gen_points isoformat base_time rs [] = Inr []"
| "gen_points isoformat base_time rs (i # is) =
     bind_res (uniform 10 100 (py_random (rs i))) (\<lambda>u.
     bind_res (py_round2 u) (\<lambda>v.
     bind_res (gen_points isoformat base_time rs is) (\<lambda>ps.
     Inr (\<lparr>value = v, timestamp = isoformat (base_time - 1000000 * int i)\<rparr> # ps))))"

definition generate_sample_data ::
    "(int \<Rightarrow> string) \<Rightarrow> int \<Rightarrow> (nat \<Rightarrow> 53 word) \<Rightarrow> int \<Rightarrow> error + (DataPoint list \<times> int)" where
  "generate_sample_data isoformat base_time rs count_req =
     (let count' = (if 1000 < count_req then 1000 else count_req) in
      bind_res (gen_points isoformat base_time rs [0..<nat count']) (\<lambda>data.
      Inr (data, int (length data))))"

section \<open>The specification's words\<close>

text \<open>
  The claims speak of finite input values: every value of the request is a finite
  binary64 number.
\<close>

definition finite_input :: "DataPoint list \<Rightarrow> bool" where
  "finite_input data = list_all (\<lambda>p. finite_float (value p)) data"

text \<open>The real number a finite float stands for.\<close>

fun fin_val :: "pyfloat \<Rightarrow> real" where
  "fin_val (Fin x) = x"
| "fin_val _ = 0"

text \<open>
  The median as the specification words it, on the ascending sequence: the average of
  the two middle elements at indices \<open>count/2 - 1\<close> and \<open>count/2\<close> when the count is even,
  the single middle element at index \<open>count/2\<close> when it is odd.
\<close>

definition spec_median :: "pyfloat list \<Rightarrow> error + pyfloat" where
  "spec_median sorted_seq =
     (let c = length sorted_seq in
      if even c
      then py_truediv (fadd (sorted_seq ! (c div 2 - 1)) (sorted_seq ! (c div 2))) (Fin 2)
      else Inr (sorted_seq ! (c div 2)))"

text \<open>The results of a list of computations in order, or the first error among them.\<close>

fun collect :: "(error + 'a) list \<Rightarrow> error + 'a list" where
  "collect [] = Inr []"
| "collect (r # rs) = bind_res r (\<lambda>x. bind_res (collect rs) (\<lambda>xs. Inr (x # xs)))"

text \<open>
  Rounding to two decimal places, whichever way ties go: the result is the float written
  with a two-digit decimal \<open>k / 100\<close> that lies within half a hundredth of the value;
  infinities and NaN are left as they are.
\<close>

definition two_decimals :: "pyfloat \<Rightarrow> pyfloat \<Rightarrow> bool" where
  "two_decimals x y =
     (case x of
        Fin a \<Rightarrow> (\<exists>k::int. \<bar>a * 100 - of_int k\<bar> \<le> 1 / 2 \<and> y = rnd (of_int k / 100))
      | _ \<Rightarrow> y = x)"

text \<open>
  The values a float variable can hold: a binary64 number, an infinity or NaN. The
  values a sum of squares can take: a non-negative number or \<open>+inf\<close>.
\<close>

definition float_value :: "pyfloat \<Rightarrow> bool" where
  "float_value v = (case v of Fin x \<Rightarrow> is_float64 x | _ \<Rightarrow> True)"

definition nonneg_value :: "pyfloat \<Rightarrow> bool" where
  "nonneg_value v = (case v of Fin x \<Rightarrow> 0 \<le> x | PInf \<Rightarrow> True | _ \<Rightarrow> False)"

text \<open>A request and its answer, used to instantiate the statements below.\<close>

abbreviation four_points :: "DataPoint list" where
  "four_points \<equiv>
     [\<lparr>value = Fin 1, timestamp = ''2024-01-01T00:00:03''\<rparr>,
      \<lparr>value = Fin 2, timestamp = ''2024-01-01T00:00:02''\<rparr>,
      \<lparr>value = Fin 3, timestamp = ''2024-01-01T00:00:01''\<rparr>,
      \<lparr>value = Fin 4, timestamp = ''2024-01-01T00:00:00''\<rparr>]"

abbreviation four_result :: AnalysisResult where
  "four_result \<equiv>
     \<lparr>mean = Fin (5 / 2), median = Fin (5 / 2),
      std_dev = Fin (1261007895663739 / 1125899906842624),
      min_val = Fin 1, max_val = Fin 4, count_val = 4\<rparr>"

text \<open>
  Five values that cancel in pairs, in two orders. Added from left to right, the
  \<open>1\<close> is absorbed by the large partial sum in the first order and survives in the
  second.
\<close>

abbreviation cancel_points_a :: "DataPoint list" where
  "cancel_points_a \<equiv>
     [\<lparr>value = Fin (2 ^ 120), timestamp = ''''\<rparr>,
      \<lparr>value = Fin (2 ^ 60), timestamp = ''''\<rparr>,
      \<lparr>value = Fin 1, timestamp = ''''\<rparr>,
      \<lparr>value = Fin (- (2 ^ 60)), timestamp = ''''\<rparr>,
      \<lparr>value = Fin (- (2 ^ 120)), timestamp = ''''\<rparr>]"

abbreviation cancel_points_b :: "DataPoint list" where
  "cancel_points_b \<equiv>
     [\<lparr>value = Fin (2 ^ 120), timestamp = ''''\<rparr>,
      \<lparr>value = Fin (- (2 ^ 120)), timestamp = ''''\<rparr>,
      \<lparr>value = Fin (2 ^ 60), timestamp = ''''\<rparr>,
      \<lparr>value = Fin (- (2 ^ 60)), timestamp = ''''\<rparr>,
      \<lparr>value = Fin 1, timestamp = ''''\<rparr>]"

abbreviation cancel_result_a :: AnalysisResult where
  "cancel_result_a \<equiv>
     \<lparr>mean = Fin 0, median = Fin 1,
      std_dev = Fin 840677599268205651578924892793339904,
      min_val = Fin (- (2 ^ 120)), max_val = Fin (2 ^ 120), count_val = 5\<rparr>"

abbreviation cancel_result_b :: AnalysisResult where
  "cancel_result_b \<equiv>
     \<lparr>mean = Fin (3602879701896397 / 18014398509481984), median = Fin 1,
      std_dev = Fin 840677599268205651578924892793339904,
      min_val = Fin (- (2 ^ 120)), max_val = Fin (2 ^ 120), count_val = 5\<rparr>"

section \<open>The service on a store of objects\<close>

text \<open>
  Python lists are mutable objects reached through references. To speak of what a call
  leaves unchanged, the objects live in a store: a list of cells, an address being an
  index into it. A list of data points holds the addresses of its points; floats are
  immutable and are held by value.
\<close>

datatype obj = Point DataPoint | PointList "nat list" | FloatList "pyfloat list"

type_synonym store = "obj list"

definition lookup :: "store \<Rightarrow> nat \<Rightarrow> obj option" where
  "lookup s a = (if a < length s then Some (s ! a) else None)"

text \<open>A new object gets the next address; no existing cell is touched.\<close>

definition alloc :: "obj \<Rightarrow> store \<Rightarrow> nat \<times> store" where
  "alloc ob s = (length s, s @ [ob])"

definition load_point :: "store \<Rightarrow> nat \<Rightarrow> error + DataPoint" where
  "load_point s a = (case lookup s a of Some (Point p) \<Rightarrow> Inr p | _ \<Rightarrow> Inl TypeError)"

definition load_points :: "store \<Rightarrow> nat \<Rightarrow> error + DataPoint list" where
  "load_points s a =
     (case lookup s a of
        Some (PointList refs) \<Rightarrow> collect (map (load_point s) refs)
      | _ \<Rightarrow> Inl TypeError)"

definition load_floats :: "store \<Rightarrow> nat \<Rightarrow> error + pyfloat list" where
  "load_floats s a = (case lookup s a of Some (FloatList xs) \<Rightarrow> Inr xs | _ \<Rightarrow> Inl TypeError)"

text \<open>\<open>xs.sort()\<close> sorts the list object at an address in place.\<close>

definition list_sort :: "nat \<Rightarrow> store \<Rightarrow> (error + unit) \<times> store" where
  "list_sort a s =
     (case load_floats s a of
        Inl e \<Rightarrow> (Inl e, s)
      | Inr xs \<Rightarrow> (Inr (), s[a := FloatList (py_sorted xs)]))"

text \<open>
  \<open>sorted(xs)\<close> builds a new list from the elements of its argument, sorts the new list
  in place and returns it.
\<close>

definition sorted_st :: "nat \<Rightarrow> store \<Rightarrow> (error + nat) \<times> store" where
  "sorted_st a s =
     (case load_floats s a of
        Inl e \<Rightarrow> (Inl e, s)
      | Inr xs \<Rightarrow>
          let (c, s1) = alloc (FloatList xs) s;
              (r, s2) = list_sort c s1
          in (case r of Inl e \<Rightarrow> (Inl e, s2) | Inr _ \<Rightarrow> (Inr c, s2)))"

text \<open>
  The statements of \<open>analyze_data\<close> after \<open>sorted_values = sorted(values)\<close>; they read the
  two lists and write nothing.
\<close>

definition statistics :: "nat \<Rightarrow> nat \<Rightarrow> store \<Rightarrow> error + AnalysisResult" where
  "statistics values sorted_values s =
     bind_res (load_floats s values) (\<lambda>vs.
     bind_res (load_floats s sorted_values) (\<lambda>svs.
     let n = int (length vs)
     in bind_res (calc_mean vs n) (\<lambda>m.
        bind_res (calc_median svs n) (\<lambda>med.
        bind_res (calc_variance vs m n) (\<lambda>variance.
        bind_res (py_pow_half variance) (\<lambda>sd.
        bind_res (py_round2 m) (\<lambda>rm.
        bind_res (py_round2 med) (\<lambda>rmed.
        bind_res (py_round2 sd) (\<lambda>rsd.
        bind_res (py_min vs) (\<lambda>mn.
        bind_res (py_max vs) (\<lambda>mx.
        Inr \<lparr>mean = rm, median = rmed, std_dev = rsd,
             min_val = mn, max_val = mx, count_val = n\<rparr>)))))))))))"

text \<open>
  \<open>analyze_data\<close> on the store: \<open>data\<close> is the address of the request's list. The list
  comprehension allocates \<open>values\<close>, \<open>sorted\<close> allocates \<open>sorted_values\<close>; the store after
  the call is returned with the result, also when the call raises.
\<close>

definition analyze_data_st :: "nat \<Rightarrow> store \<Rightarrow> (error + AnalysisResult) \<times> store" where
  "analyze_data_st data s =
     (case load_points s data of
        Inl e \<Rightarrow> (Inl e, s)
      | Inr points \<Rightarrow>
          let (values, s1) = alloc (FloatList (map value points)) s
          in if load_floats s1 values = Inr [] then
               (Inr \<lparr>mean = Fin 0, median = Fin 0, std_dev = Fin 0,
                     min_val = Fin 0, max_val = Fin 0, count_val = 0\<rparr>, s1)
             else
               let (r, s2) = sorted_st values s1
               in (case r of
                     Inl e \<Rightarrow> (Inl e, s2)
                   | Inr sorted_values \<Rightarrow> (statistics values sorted_values s2, s2)))"

text \<open>A store holding the five points of \<open>cancel_points_b\<close> and, at address 5, their list.\<close>

abbreviation cancel_store :: store where
  "cancel_store \<equiv> map Point cancel_points_b @ [PointList [0, 1, 2, 3, 4]]"

section \<open>The service on any platform\<close>

text \<open>
  Two things \<open>analyze_data\<close> calls are not fixed by the language. The builtin \<open>sum\<close> adds
  floats from left to right up to CPython 3.11 and with a compensation term since 3.12.
  And \<open>float ** float\<close> hands finite operands to the C library's \<open>pow\<close>, which is
  accurate to about a unit in the last place but is not correctly rounded. A platform
  supplies the two: the sum of a list of floats, and \<open>pow\<close> on finite doubles.
\<close>

record platform =
  plat_sum :: "pyfloat list \<Rightarrow> pyfloat"
  plat_pow :: "real \<Rightarrow> real \<Rightarrow> pyfloat"

text \<open>
  \<open>x ** 2\<close> as \<open>float.__pow__\<close> computes it: an infinite base gives \<open>inf\<close>, NaN gives NaN, a
  zero base gives \<open>0.0\<close>; a negative base is replaced by its absolute value (the exponent
  is an even integer); a base of \<open>1.0\<close> gives \<open>1.0\<close>; otherwise the platform's \<open>pow\<close> is
  called, and an infinite result raises \<open>OverflowError\<close>.
\<close>

fun py_pow2_on :: "platform \<Rightarrow> pyfloat \<Rightarrow> error + pyfloat" where
  "py_pow2_on plat (Fin x) =
     (if x = 0 then Inr (Fin 0)
      else if \<bar>x\<bar> = 1 then Inr (Fin 1)
      else (case plat_pow plat \<bar>x\<bar> 2 of
              Fin y \<Rightarrow> Inr (Fin y)
            | NaN \<Rightarrow> Inr NaN
            | _ \<Rightarrow> Inl OverflowError))"
| "py_pow2_on plat PInf = Inr PInf"
| "py_pow2_on plat NInf = Inr PInf"
| "py_pow2_on plat NaN = Inr NaN"

text \<open>
  \<open>x ** 0.5\<close>, likewise: a negative base gives a complex number, which \<open>round(_, 2)\<close> then
  rejects with \<open>TypeError\<close>.
\<close>

fun py_pow_half_on :: "platform \<Rightarrow> pyfloat \<Rightarrow> error + pyfloat" where
  "py_pow_half_on plat (Fin v) =
     (if v = 0 then Inr (Fin 0)
      else if v < 0 then Inl TypeError
      else if v = 1 then Inr (Fin 1)
      else (case plat_pow plat v (1 / 2) of
              Fin y \<Rightarrow> Inr (Fin y)
            | NaN \<Rightarrow> Inr NaN
            | _ \<Rightarrow> Inl OverflowError))"
| "py_pow_half_on plat PInf = Inr PInf"
| "py_pow_half_on plat NInf = Inr PInf"
| "py_pow_half_on plat NaN = Inr NaN"

text \<open>\<open>mean = sum(values) / n\<close>\<close>

definition calc_mean_on :: "platform \<Rightarrow> pyfloat list \<Rightarrow> int \<Rightarrow> error + pyfloat" where
  "calc_mean_on plat values n = bind_res (float_of_int n) (py_truediv (plat_sum plat values))"

text \<open>
  \<open>variance = sum((x - mean) ** 2 for x in values) / n\<close>: the first power that raises
  ends the sum with its error.
\<close>

definition calc_variance_on ::
    "platform \<Rightarrow> pyfloat list \<Rightarrow> pyfloat \<Rightarrow> int \<Rightarrow> error + pyfloat" where
  "calc_variance_on plat values m n =
     bind_res (collect (map (\<lambda>x. py_pow2_on plat (fsub x m)) values)) (\<lambda>squares.
     bind_res (float_of_int n) (py_truediv (plat_sum plat squares)))"

definition analyze_data_on :: "platform \<Rightarrow> DataPoint list \<Rightarrow> error + AnalysisResult" where
  "analyze_data_on plat data =
     (let values = map value data in
      if values = [] then
        Inr \<lparr>mean = Fin 0, median = Fin 0, std_dev = Fin 0,
             min_val = Fin 0, max_val = Fin 0, count_val = 0\<rparr>
      else
        let sorted_values = py_sorted values;
            n = int (length values)
        in bind_res (calc_mean_on plat values n) (\<lambda>m.
           bind_res (calc_median sorted_values n) (\<lambda>med.
           bind_res (calc_variance_on plat values m n) (\<lambda>variance.
           bind_res (py_pow_half_on plat variance) (\<lambda>sd.
           bind_res (py_round2 m) (\<lambda>rm.
           bind_res (py_round2 med) (\<lambda>rmed.
           bind_res (py_round2 sd) (\<lambda>rsd.
           bind_res (py_min values) (\<lambda>mn.
           bind_res (py_max values) (\<lambda>mx.
           Inr \<lparr>mean = rm, median = rmed, std_dev = rsd,
                min_val = mn, max_val = mx, count_val = n\<rparr>))))))))))"

text \<open>
  The reference platform: the left-to-right sum, and a correctly rounded \<open>pow\<close> at the two
  exponents used. On it the service is \<open>analyze_data\<close> as defined above.
\<close>

definition reference_platform :: platform where
  "reference_platform =
     \<lparr>plat_sum = py_sum, plat_pow = (\<lambda>x y. if y = 2 then rnd (x * x) else sqrt_rnd x)\<rparr>"

subsection \<open>Accuracy of a platform, and the standard deviation in the specification's words\<close>





section \<open>Properties of the rounding\<close>

subsection \<open>Powers of two and the binade of a number\<close>

lemma p2_less_iff: "(2::real) powi a < 2 powi b \<longleftrightarrow> a < b"
proof
  assume "(2::real) powi a < 2 powi b"
  show "a < b"
  proof (rule ccontr)
    assume "\<not> a < b"
    then have "b \<le> a" by simp
    then have "(2::real) powi b \<le> 2 powi a" by (intro power_int_increasing) auto
    with \<open>(2::real) powi a < 2 powi b\<close> show False by simp
  qed
next
  assume "a < b" then show "(2::real) powi a < 2 powi b"
    by (intro power_int_strict_increasing) auto
qed

lemma p2_le_iff: "(2::real) powi a \<le> 2 powi b \<longleftrightarrow> a \<le> b"
  using p2_less_iff [of b a] by (auto simp: not_less [symmetric])

lemma p2_add: "(2::real) powi (a + b) = 2 powi a * 2 powi b"
  by (simp add: power_int_add)

lemma p2_diff: "(2::real) powi (a - b) = 2 powi a / 2 powi b"
  by (simp add: power_int_diff)

lemma ilog2_bounds:
  assumes "0 < x"
  shows "2 powi (ilog2 x) \<le> x" and "x < 2 powi (ilog2 x + 1)"
proof -
  have "2 powi (ilog2 x) \<le> x \<and> x < 2 powi (ilog2 x + 1)"
  proof (cases "1 \<le> x")
    case True
    define n where "n = \<lfloor>x\<rfloor>"
    have n1: "1 \<le> n" using True by (simp add: n_def)
    then have n0: "0 < n" by simp
    have b1: "1 \<le> bitlen n" using n0 by (simp add: bitlen_alt_def)
    from bitlen_bounds [OF n0] have lo: "2 ^ nat (bitlen n - 1) \<le> n" and hi: "n < 2 ^ nat (bitlen n)"
      by auto
    have il: "ilog2 x = bitlen n - 1" using True by (simp add: ilog2_def n_def)
    have "(2::real) powi (bitlen n - 1) = 2 ^ nat (bitlen n - 1)"
      using b1 by (simp add: power_int_nonneg_exp)
    also have "\<dots> = of_int (2 ^ nat (bitlen n - 1))" by simp
    also have "\<dots> \<le> of_int n" using lo by (simp only: of_int_le_iff)
    also have "\<dots> \<le> x" by (simp add: n_def)
    finally have A: "2 powi (ilog2 x) \<le> x" by (simp add: il)
    have "n + 1 \<le> 2 ^ nat (bitlen n)" using hi by simp
    then have "real_of_int (n + 1) \<le> of_int (2 ^ nat (bitlen n))" by (simp only: of_int_le_iff)
    moreover have "x < real_of_int (n + 1)" by (simp add: n_def)
    ultimately have "x < of_int (2 ^ nat (bitlen n))" by simp
    also have "\<dots> = 2 powi (bitlen n)" using b1 by (simp add: power_int_nonneg_exp)
    finally have B: "x < 2 powi (ilog2 x + 1)" by (simp add: il)
    from A B show ?thesis ..
  next
    case False
    define y where "y = 1 / x"
    define m where "m = \<lceil>y\<rceil>"
    have y1: "1 < y" using False assms by (simp add: y_def)
    have m2: "2 \<le> m" using y1 by (simp add: m_def)
    then have m0: "0 < m - 1" by simp
    define c where "c = bitlen (m - 1)"
    have c1: "1 \<le> c" using m0 by (simp add: bitlen_alt_def c_def)
    from bitlen_bounds [OF m0] have lo: "2 ^ nat (c - 1) \<le> m - 1" and hi: "m - 1 < 2 ^ nat c"
      by (auto simp: c_def)
    have il: "ilog2 x = - c" using False by (simp add: ilog2_def c_def m_def y_def)
    have "y \<le> of_int m" by (simp add: m_def)
    also have "m \<le> 2 ^ nat c" using hi by simp
    then have "real_of_int m \<le> of_int (2 ^ nat c)" by (simp only: of_int_le_iff)
    also have "\<dots> = 2 powi c" using c1 by (simp add: power_int_nonneg_exp)
    finally have "y \<le> 2 powi c" .
    then have "1 / 2 powi c \<le> x" using assms y1
      by (simp add: y_def field_simps)
    then have A: "2 powi (ilog2 x) \<le> x" by (simp add: il power_int_minus_divide)
    have "(2::real) powi (c - 1) = of_int (2 ^ nat (c - 1))" using c1 by (simp add: power_int_nonneg_exp)
    also have "\<dots> \<le> of_int (m - 1)" using lo by (simp only: of_int_le_iff)
    also have "\<dots> < y" unfolding m_def by linarith
    finally have "2 powi (c - 1) < y" .
    then have "x < 1 / 2 powi (c - 1)" using assms by (simp add: y_def field_simps)
    also have "\<dots> = 2 powi (- c + 1)" by (simp add: power_int_minus_divide [symmetric])
    finally have B: "x < 2 powi (ilog2 x + 1)" by (simp add: il)
    from A B show ?thesis ..
  qed
  then show "2 powi (ilog2 x) \<le> x" and "x < 2 powi (ilog2 x + 1)" by auto
qed

lemma ilog2_unique:
  assumes "2 powi k \<le> x" and "x < 2 powi (k + 1)"
  shows "ilog2 x = k"
proof -
  have x0: "0 < x" using assms(1) by (rule less_le_trans [rotated]) simp
  from ilog2_bounds [OF x0] assms have "(2::real) powi (ilog2 x) < 2 powi (k + 1)" "(2::real) powi k < 2 powi (ilog2 x + 1)"
    by linarith+
  then show ?thesis by (simp add: p2_less_iff)
qed

subsection \<open>Rounding to an integer\<close>

lemma rhe_cases:
  "rhe x = \<lfloor>x\<rfloor> \<or> rhe x = \<lfloor>x\<rfloor> + 1"
  by (simp add: rhe_def Let_def)

lemma rhe_of_int [simp]: "rhe (of_int n) = n"
  by (simp add: rhe_def Let_def)

lemma rhe_near:
  assumes "\<bar>x - of_int m\<bar> < 1 / 2"
  shows "rhe x = m"
proof -
  consider "of_int m \<le> x" | "x < of_int m" by linarith
  then show ?thesis
  proof cases
    case 1
    then have "\<lfloor>x\<rfloor> = m" using assms by (intro floor_unique) (auto simp: abs_if split: if_splits)
    then show ?thesis using assms 1 by (simp add: rhe_def Let_def abs_if split: if_splits)
  next
    case 2
    then have f: "\<lfloor>x\<rfloor> = m - 1" using assms by (intro floor_unique) (auto simp: abs_if split: if_splits)
    have "1 / 2 < x - of_int (m - 1)" using assms 2 by (auto simp: abs_if split: if_splits)
    then show ?thesis using f by (simp add: rhe_def Let_def)
  qed
qed

lemma rhe_unfold:
  "rhe x = (if x - of_int \<lfloor>x\<rfloor> < 1 / 2 then \<lfloor>x\<rfloor>
            else if 1 / 2 < x - of_int \<lfloor>x\<rfloor> then \<lfloor>x\<rfloor> + 1
            else if even \<lfloor>x\<rfloor> then \<lfloor>x\<rfloor> else \<lfloor>x\<rfloor> + 1)"
  by (simp add: rhe_def Let_def)

lemma rhe_dist: "\<bar>of_int (rhe x) - x\<bar> \<le> 1 / 2"
proof -
  define f where "f = \<lfloor>x\<rfloor>"
  have A: "of_int f \<le> x" "x < of_int f + 1" unfolding f_def by linarith+
  have "rhe x = (if x - of_int f < 1 / 2 then f
            else if 1 / 2 < x - of_int f then f + 1
            else if even f then f else f + 1)"
    unfolding f_def by (rule rhe_unfold)
  then show ?thesis using A by (auto simp: abs_if)
qed

lemma rhe_le: "x \<le> of_int n \<Longrightarrow> rhe x \<le> n"
proof -
  assume a: "x \<le> of_int n"
  show ?thesis
  proof (cases "x = of_int n")
    case True then show ?thesis by simp
  next
    case False
    with a have "x < of_int n" by simp
    then have "\<lfloor>x\<rfloor> < n" by (simp add: floor_less_iff)
    then show ?thesis using rhe_cases [of x] by auto
  qed
qed

lemma rhe_ge: "of_int n \<le> x \<Longrightarrow> n \<le> rhe x"
proof -
  assume "of_int n \<le> x"
  then have "n \<le> \<lfloor>x\<rfloor>" by (simp add: le_floor_iff)
  then show ?thesis using rhe_cases [of x] by auto
qed

lemma rhe_mono: "x \<le> y \<Longrightarrow> rhe x \<le> rhe y"
proof -
  assume xy: "x \<le> y"
  then have fl: "\<lfloor>x\<rfloor> \<le> \<lfloor>y\<rfloor>" by (rule floor_mono)
  show ?thesis
  proof (cases "\<lfloor>x\<rfloor> = \<lfloor>y\<rfloor>")
    case True
    then show ?thesis using xy by (auto simp: rhe_def Let_def)
  next
    case False
    with fl have "\<lfloor>x\<rfloor> + 1 \<le> \<lfloor>y\<rfloor>" by simp
    moreover have "rhe x \<le> \<lfloor>x\<rfloor> + 1" using rhe_cases [of x] by auto
    moreover have "\<lfloor>y\<rfloor> \<le> rhe y" using rhe_cases [of y] by auto
    ultimately show ?thesis by linarith
  qed
qed

lemma rhe_minus: "rhe (- x) = - rhe x"
proof (cases "x = of_int \<lfloor>x\<rfloor>")
  case True
  then obtain n where "x = of_int n" ..
  then have "- x = of_int (- n)" by simp
  then show ?thesis using \<open>x = of_int n\<close> by (simp only: rhe_of_int)
next
  case False
  define f where "f = \<lfloor>x\<rfloor>"
  have fm: "\<lfloor>- x\<rfloor> = - f - 1" using False by (simp add: floor_minus ceiling_altdef f_def)
  have A: "of_int f < x" "x < of_int f + 1" using False unfolding f_def by linarith+
  have 1: "rhe x = (if x - of_int f < 1 / 2 then f
            else if 1 / 2 < x - of_int f then f + 1
            else if even f then f else f + 1)"
    unfolding f_def by (rule rhe_unfold)
  have 2: "rhe (- x) = (if - x - of_int (- f - 1) < 1 / 2 then - f - 1
            else if 1 / 2 < - x - of_int (- f - 1) then (- f - 1) + 1
            else if even (- f - 1) then - f - 1 else (- f - 1) + 1)"
    unfolding fm [symmetric] by (rule rhe_unfold)
  show ?thesis unfolding 1 2 using A by auto
qed

subsection \<open>Rounding to the grid of a binade\<close>

lemma expo_minus [simp]: "expo (- x) = expo x"
  by (simp add: expo_def)

lemma expo_ge: "- 1074 \<le> expo x"
  by (simp add: expo_def)

lemma expo_upper:
  assumes "x \<noteq> 0"
  shows "\<bar>x\<bar> < 2 powi (expo x + 53)"
proof -
  have "\<bar>x\<bar> < 2 powi (ilog2 \<bar>x\<bar> + 1)" using assms by (intro ilog2_bounds) simp
  also have "\<dots> \<le> 2 powi (expo x + 53)"
    by (simp add: p2_le_iff expo_def)
  finally show ?thesis .
qed

lemma expo_lower:
  assumes "x \<noteq> 0" and "- 1074 < expo x"
  shows "2 powi (expo x + 52) \<le> \<bar>x\<bar>"
proof -
  have "expo x = ilog2 \<bar>x\<bar> - 52" using assms(2) by (simp add: expo_def max_def split: if_splits)
  then have "2 powi (expo x + 52) = (2::real) powi (ilog2 \<bar>x\<bar>)" by simp
  also have "\<dots> \<le> \<bar>x\<bar>" using assms(1) by (intro ilog2_bounds) simp
  finally show ?thesis .
qed

lemma expo_eqI:
  assumes "x \<noteq> 0" and "- 1074 \<le> e" and "\<bar>x\<bar> < 2 powi (e + 53)"
    and "e = - 1074 \<or> 2 powi (e + 52) \<le> \<bar>x\<bar>"
  shows "expo x = e"
proof -
  have le: "expo x \<le> e"
  proof (cases "- 1074 < expo x")
    case True
    from expo_lower [OF assms(1) True] assms(3) have "(2::real) powi (expo x + 52) < 2 powi (e + 53)"
      by linarith
    then show ?thesis by (simp add: p2_less_iff)
  next
    case False
    then show ?thesis using expo_ge [of x] assms(2) by linarith
  qed
  have ge: "e \<le> expo x"
  proof (cases "e = - 1074")
    case True then show ?thesis using expo_ge [of x] by simp
  next
    case False
    with assms(4) have "2 powi (e + 52) \<le> \<bar>x\<bar>" by simp
    with expo_upper [OF assms(1)] have "(2::real) powi (e + 52) < 2 powi (expo x + 53)" by linarith
    then show ?thesis by (simp add: p2_less_iff)
  qed
  from le ge show ?thesis by simp
qed

lemma expo_mono:
  assumes "x \<noteq> 0" and "\<bar>x\<bar> \<le> \<bar>y\<bar>"
  shows "expo x \<le> expo y"
proof (cases "- 1074 < expo x")
  case True
  have y0: "y \<noteq> 0" using assms by auto
  from expo_lower [OF assms(1) True] assms(2) expo_upper [OF y0]
  have "(2::real) powi (expo x + 52) < 2 powi (expo y + 53)" by linarith
  then show ?thesis by (simp add: p2_less_iff)
next
  case False
  then show ?thesis using expo_ge [of x] expo_ge [of y] by linarith
qed

lemma round_to_grid_0 [simp]: "round_to_grid 0 = 0"
  using rhe_of_int [of 0] by (simp add: round_to_grid_def)

lemma round_to_grid_minus: "round_to_grid (- x) = - round_to_grid x"
  by (simp add: round_to_grid_def rhe_minus)

lemma round_to_grid_nonneg:
  assumes "0 \<le> x"
  shows "0 \<le> round_to_grid x"
proof -
  have "of_int 0 \<le> x / 2 powi expo x" using assms by simp
  then have "0 \<le> rhe (x / 2 powi expo x)" by (rule rhe_ge)
  then show ?thesis by (simp add: round_to_grid_def)
qed

lemma round_to_grid_upper:
  assumes "x \<noteq> 0"
  shows "\<bar>round_to_grid x\<bar> \<le> 2 powi (expo x + 53)"
proof -
  have "\<bar>x\<bar> / 2 powi expo x < 2 powi (expo x + 53) / 2 powi expo x"
    using expo_upper [OF assms] by (simp add: divide_strict_right_mono)
  also have "\<dots> = 2 ^ 53" by (simp add: p2_add)
  finally have b: "\<bar>x / 2 powi expo x\<bar> \<le> of_int (2 ^ 53)" by simp
  then have "rhe (x / 2 powi expo x) \<le> 2 ^ 53" by (intro rhe_le) linarith
  moreover have "real_of_int (- (2 ^ 53)) \<le> x / 2 powi expo x" using b by (simp only: of_int_minus abs_le_iff) linarith
  then have "- (2 ^ 53) \<le> rhe (x / 2 powi expo x)" by (rule rhe_ge)
  ultimately have "\<bar>rhe (x / 2 powi expo x)\<bar> \<le> 2 ^ 53" by linarith
  then have "\<bar>real_of_int (rhe (x / 2 powi expo x))\<bar> \<le> 2 ^ 53"
    by (metis of_int_abs of_int_le_iff of_int_numeral of_int_power)
  then have "\<bar>round_to_grid x\<bar> \<le> 2 ^ 53 * 2 powi expo x"
    by (simp add: round_to_grid_def abs_mult mult_right_mono)
  then show ?thesis by (simp add: p2_add mult.commute)
qed

lemma round_to_grid_lower:
  assumes "0 < x" and "- 1074 < expo x"
  shows "2 powi (expo x + 52) \<le> round_to_grid x"
proof -
  have x0: "x \<noteq> 0" using assms by simp
  have "2 powi (expo x + 52) / 2 powi expo x \<le> \<bar>x\<bar> / 2 powi expo x"
    using expo_lower [OF x0 assms(2)] by (simp add: divide_right_mono)
  then have "of_int (2 ^ 52) \<le> x / 2 powi expo x" using assms(1) by (simp add: p2_add)
  then have "2 ^ 52 \<le> rhe (x / 2 powi expo x)" by (rule rhe_ge)
  then have "(2::real) ^ 52 \<le> of_int (rhe (x / 2 powi expo x))"
    by (metis of_int_le_iff of_int_numeral of_int_power)
  then have "2 ^ 52 * 2 powi expo x \<le> round_to_grid x"
    by (simp add: round_to_grid_def mult_right_mono)
  then show ?thesis by (simp add: p2_add mult.commute)
qed

lemma round_to_grid_mono_pos:
  assumes "0 < x" and "x \<le> y"
  shows "round_to_grid x \<le> round_to_grid y"
proof -
  have x0: "x \<noteq> 0" and y0: "0 < y" using assms by auto
  have ee: "expo x \<le> expo y" using assms by (intro expo_mono) auto
  show ?thesis
  proof (cases "expo x = expo y")
    case True
    have "x / 2 powi expo y \<le> y / 2 powi expo y" using assms(2) by (simp add: divide_right_mono)
    then have "rhe (x / 2 powi expo y) \<le> rhe (y / 2 powi expo y)" by (rule rhe_mono)
    then show ?thesis by (simp add: round_to_grid_def True mult_right_mono)
  next
    case False
    with ee have lt: "expo x < expo y" by simp
    then have "- 1074 < expo y" using expo_ge [of x] by linarith
    from round_to_grid_lower [OF y0 this] have "2 powi (expo y + 52) \<le> round_to_grid y" .
    moreover have "round_to_grid x \<le> 2 powi (expo x + 53)"
      using round_to_grid_upper [OF x0] by linarith
    moreover have "(2::real) powi (expo x + 53) \<le> 2 powi (expo y + 52)"
      using lt by (simp add: p2_le_iff)
    ultimately show ?thesis by linarith
  qed
qed

lemma round_to_grid_mono:
  assumes "x \<le> y"
  shows "round_to_grid x \<le> round_to_grid y"
proof -
  consider "0 < x" | "x \<le> 0" "0 \<le> y" | "y < 0" by linarith
  then show ?thesis
  proof cases
    case 1 then show ?thesis using assms by (rule round_to_grid_mono_pos)
  next
    case 2
    have "0 \<le> round_to_grid (- x)" using 2 by (intro round_to_grid_nonneg) simp
    then have "round_to_grid x \<le> 0" by (simp add: round_to_grid_minus)
    moreover have "0 \<le> round_to_grid y" using 2 by (intro round_to_grid_nonneg)
    ultimately show ?thesis by linarith
  next
    case 3
    then have "0 < - y" "- y \<le> - x" using assms by auto
    then have "round_to_grid (- y) \<le> round_to_grid (- x)" by (rule round_to_grid_mono_pos)
    then show ?thesis by (simp add: round_to_grid_minus)
  qed
qed

lemma round_to_grid_exact:
  assumes "\<bar>m\<bar> < 2 ^ 53" and "- 1074 \<le> e"
  shows "round_to_grid (of_int m * 2 powi e) = of_int m * 2 powi e"
proof (cases "m = 0")
  case True then show ?thesis by simp
next
  case False
  define x :: real where "x = of_int m * 2 powi e"
  have x0: "x \<noteq> 0" using False by (simp add: x_def)
  have "\<bar>real_of_int m\<bar> < 2 ^ 53" using assms(1)
    by (metis of_int_abs of_int_less_iff of_int_numeral of_int_power)
  then have ax: "\<bar>x\<bar> < 2 powi (e + 53)"
    by (simp add: x_def abs_mult p2_add mult.commute)
  have le: "expo x \<le> e"
  proof (cases "- 1074 < expo x")
    case True
    from expo_lower [OF x0 True] ax have "(2::real) powi (expo x + 52) < 2 powi (e + 53)" by linarith
    then show ?thesis by (simp add: p2_less_iff)
  next
    case False then show ?thesis using expo_ge [of x] assms(2) by linarith
  qed
  have "x / 2 powi expo x = of_int m * 2 powi (e - expo x)"
    by (simp add: x_def p2_diff)
  also have "\<dots> = of_int m * 2 ^ nat (e - expo x)" using le by (simp add: power_int_nonneg_exp)
  also have "\<dots> = of_int (m * 2 ^ nat (e - expo x))" by simp
  finally have "rhe (x / 2 powi expo x) = m * 2 ^ nat (e - expo x)" by (simp only: rhe_of_int)
  then have "round_to_grid x = of_int m * 2 ^ nat (e - expo x) * 2 powi expo x"
    by (simp add: round_to_grid_def)
  also have "\<dots> = of_int m * (2 powi (e - expo x) * 2 powi expo x)"
    using le by (simp add: power_int_nonneg_exp)
  also have "\<dots> = x" by (simp add: x_def p2_add [symmetric])
  finally show ?thesis by (simp add: x_def)
qed

subsection \<open>Rounding to binary64\<close>

lemma rnd_Fin_iff: "rnd x = Fin r \<longleftrightarrow> r = round_to_grid x \<and> \<bar>r\<bar> < 2 ^ 1024"
  by (cases "x = 0") (auto simp: rnd_def Let_def)

lemma is_float64_iff: "is_float64 x \<longleftrightarrow> round_to_grid x = x \<and> \<bar>x\<bar> < 2 ^ 1024"
  by (auto simp: is_float64_def rnd_Fin_iff)

lemma rnd_PInf_iff: "rnd x = PInf \<longleftrightarrow> 2 ^ 1024 \<le> round_to_grid x"
proof (cases "0 < x")
  case True
  then have "0 \<le> round_to_grid x" by (intro round_to_grid_nonneg) simp
  then show ?thesis using True by (auto simp: rnd_def Let_def)
next
  case False
  then have "0 \<le> round_to_grid (- x)" by (intro round_to_grid_nonneg) simp
  then have "round_to_grid x \<le> 0" by (simp add: round_to_grid_minus)
  then show ?thesis using False by (auto simp: rnd_def Let_def)
qed

lemma rnd_NInf_iff: "rnd x = NInf \<longleftrightarrow> round_to_grid x \<le> - (2 ^ 1024)"
proof (cases "0 < x")
  case True
  then have "0 \<le> round_to_grid x" by (intro round_to_grid_nonneg) simp
  then show ?thesis using True by (auto simp: rnd_def Let_def)
next
  case False
  then have "0 \<le> round_to_grid (- x)" by (intro round_to_grid_nonneg) simp
  then have "round_to_grid x \<le> 0" by (simp add: round_to_grid_minus)
  then show ?thesis using False by (auto simp: rnd_def Let_def)
qed

lemma rnd_not_NaN [simp]: "rnd x \<noteq> NaN"
  by (auto simp: rnd_def Let_def)

lemma rnd_minus: "rnd (- x) = fneg (rnd x)"
  by (auto simp: rnd_def Let_def round_to_grid_minus)

lemma rnd_0 [simp]: "rnd 0 = Fin 0"
  by (simp add: rnd_def)

lemma rnd_exact:
  assumes "\<bar>m\<bar> < 2 ^ 53" and "- 1074 \<le> e" and "e \<le> 971"
  shows "rnd (of_int m * 2 powi e) = Fin (of_int m * 2 powi e)"
proof -
  have "\<bar>real_of_int m\<bar> < 2 ^ 53" using assms(1)
    by (metis of_int_abs of_int_less_iff of_int_numeral of_int_power)
  moreover have "(2::real) powi e \<le> 2 powi 971" using assms(3) by (simp only: p2_le_iff)
  moreover have "0 < (2::real) powi e" by simp
  ultimately have "\<bar>real_of_int m\<bar> * 2 powi e < 2 ^ 53 * 2 powi 971"
    by (intro mult_less_le_imp_less) auto
  then have "\<bar>of_int m * 2 powi e\<bar> < (2::real) ^ 1024" by (simp add: abs_mult)
  then show ?thesis using round_to_grid_exact [OF assms(1,2)] by (simp add: rnd_Fin_iff)
qed

lemma is_float64_dyadic:
  "\<bar>m\<bar> < 2 ^ 53 \<Longrightarrow> - 1074 \<le> e \<Longrightarrow> e \<le> 971 \<Longrightarrow> is_float64 (of_int m * 2 powi e)"
  unfolding is_float64_def by (rule rnd_exact)

lemma is_float64_of_int: "\<bar>m\<bar> < 2 ^ 53 \<Longrightarrow> is_float64 (of_int m)"
  using is_float64_dyadic [of m 0] by simp

lemma round_to_grid_near:
  assumes "x \<noteq> 0" and "- 1074 \<le> e" and "\<bar>x\<bar> < 2 powi (e + 53)"
    and "e = - 1074 \<or> 2 powi (e + 52) \<le> \<bar>x\<bar>"
    and "\<bar>x / 2 powi e - of_int m\<bar> < 1 / 2"
  shows "round_to_grid x = of_int m * 2 powi e"
proof -
  have "expo x = e" using assms(1-4) by (rule expo_eqI)
  moreover have "rhe (x / 2 powi e) = m" using assms(5) by (rule rhe_near)
  ultimately show ?thesis by (simp add: round_to_grid_def)
qed

lemma rnd_near:
  assumes "x \<noteq> 0" and "- 1074 \<le> e" and "\<bar>x\<bar> < 2 powi (e + 53)"
    and "e = - 1074 \<or> 2 powi (e + 52) \<le> \<bar>x\<bar>"
    and "\<bar>x / 2 powi e - of_int m\<bar> < 1 / 2"
    and "\<bar>of_int m * 2 powi e\<bar> < (2::real) ^ 1024"
  shows "rnd x = Fin (of_int m * 2 powi e)"
  using round_to_grid_near [OF assms(1-5)] assms(6) by (simp add: rnd_Fin_iff)

lemma rnd_overflow:
  assumes "2 ^ 1024 \<le> \<bar>x\<bar>"
  shows "rnd x = (if 0 < x then PInf else NInf)"
proof -
  have pp: "(2::real) ^ 1024 = 2 powi 1024" by simp
  have big: "2 ^ 1024 \<le> round_to_grid y" if "2 ^ 1024 \<le> y" for y :: real
  proof -
    have y0: "0 < y" "y \<noteq> 0" using that by (auto intro: less_le_trans [rotated])
    have "(2::real) powi 1024 \<le> \<bar>y\<bar>" using that y0 unfolding pp [symmetric] by linarith
    with expo_upper [OF y0(2)] have "(2::real) powi 1024 < 2 powi (expo y + 53)" by linarith
    then have e: "1024 < expo y + 53" by (simp only: p2_less_iff)
    then have "- 1074 < expo y" by simp
    from round_to_grid_lower [OF y0(1) this] have "2 powi (expo y + 52) \<le> round_to_grid y" .
    moreover have "1024 \<le> expo y + 52" using e by linarith
    then have "(2::real) powi 1024 \<le> 2 powi (expo y + 52)" by (simp only: p2_le_iff)
    ultimately show ?thesis unfolding pp by linarith
  qed
  show ?thesis
  proof (cases "0 < x")
    case True
    then have "2 ^ 1024 \<le> round_to_grid x" using assms by (intro big) simp
    then show ?thesis using True by (simp add: rnd_PInf_iff)
  next
    case False
    then have "2 ^ 1024 \<le> round_to_grid (- x)" using assms by (intro big) simp
    then show ?thesis using False by (simp add: rnd_NInf_iff round_to_grid_minus)
  qed
qed

lemma rnd_between:
  assumes "a \<le> x" and "x \<le> b" and "is_float64 a" and "is_float64 b"
  shows "\<exists>r. rnd x = Fin r \<and> a \<le> r \<and> r \<le> b"
proof -
  from assms(3,4) have a: "round_to_grid a = a" "\<bar>a\<bar> < 2 ^ 1024"
    and b: "round_to_grid b = b" "\<bar>b\<bar> < 2 ^ 1024"
    by (auto simp: is_float64_iff)
  have "round_to_grid a \<le> round_to_grid x" "round_to_grid x \<le> round_to_grid b"
    using assms(1,2) by (auto intro: round_to_grid_mono)
  then have 1: "a \<le> round_to_grid x" "round_to_grid x \<le> b" by (simp_all add: a b)
  then have "\<bar>round_to_grid x\<bar> < 2 ^ 1024" using a(2) b(2) by linarith
  then have "rnd x = Fin (round_to_grid x)" by (simp add: rnd_Fin_iff)
  with 1 show ?thesis by blast
qed

lemma rnd_mono: "x \<le> y \<Longrightarrow> rnd x = Fin r \<Longrightarrow> rnd y = Fin s \<Longrightarrow> r \<le> s"
  by (auto simp: rnd_Fin_iff intro: round_to_grid_mono)

lemma rnd_idem: "rnd x = Fin r \<Longrightarrow> is_float64 r"
proof -
  assume a: "rnd x = Fin r"
  then have r: "r = round_to_grid x" "\<bar>r\<bar> < 2 ^ 1024" by (auto simp: rnd_Fin_iff)
  show ?thesis
  proof (cases "x = 0")
    case True then show ?thesis using r by (simp add: is_float64_def)
  next
    case False
    define n where "n = rhe (x / 2 powi expo x)"
    have rn: "r = of_int n * 2 powi expo x" by (simp add: r round_to_grid_def n_def)
    have nb: "\<bar>n\<bar> \<le> 2 ^ 53"
    proof -
      have "\<bar>r\<bar> \<le> 2 powi (expo x + 53)" using round_to_grid_upper [OF False] r by simp
      then have "\<bar>real_of_int n\<bar> * 2 powi expo x \<le> 2 ^ 53 * 2 powi expo x"
        by (simp add: rn abs_mult p2_add mult.commute)
      then have "\<bar>real_of_int n\<bar> \<le> 2 ^ 53" by simp
      then show ?thesis by (metis of_int_abs of_int_le_iff of_int_numeral of_int_power)
    qed
    show ?thesis
    proof (cases "\<bar>n\<bar> = 2 ^ 53")
      case False
      with nb have "\<bar>n\<bar> < 2 ^ 53" by simp
      then have "round_to_grid (of_int n * 2 powi expo x) = of_int n * 2 powi expo x"
        using expo_ge [of x] by (rule round_to_grid_exact)
      then show ?thesis using r by (simp add: is_float64_iff rn)
    next
      case True
      then have "n = 2 ^ 53 \<or> n = - (2 ^ 53)" by linarith
      then have "r = of_int (n div 2) * 2 powi (expo x + 1)"
        by (auto simp: rn p2_add)
      moreover have "\<bar>n div 2\<bar> < 2 ^ 53" using \<open>n = 2 ^ 53 \<or> n = - (2 ^ 53)\<close> by auto
      then have "round_to_grid (of_int (n div 2) * 2 powi (expo x + 1)) = of_int (n div 2) * 2 powi (expo x + 1)"
        using expo_ge [of x] by (intro round_to_grid_exact) auto
      ultimately show ?thesis using r by (simp add: is_float64_iff)
    qed
  qed
qed

section \<open>Properties of the operations\<close>

subsection \<open>Errors and the shape of a result\<close>

lemma bind_res_Inr_iff: "bind_res m f = Inr y \<longleftrightarrow> (\<exists>x. m = Inr x \<and> f x = Inr y)"
  by (cases m) (simp_all add: bind_res_def)

lemma bind_res_Inl_iff: "bind_res m f = Inl e \<longleftrightarrow> m = Inl e \<or> (\<exists>x. m = Inr x \<and> f x = Inl e)"
  by (cases m) (simp_all add: bind_res_def)

lemma bind_res_Inr [simp]: "bind_res (Inr x) f = f x"
  by (simp add: bind_res_def)

lemma bind_res_Inl [simp]: "bind_res (Inl e) f = Inl e"
  by (simp add: bind_res_def)

lemma analyze_data_empty: "analyze_data [] =
  Inr \<lparr>mean = Fin 0, median = Fin 0, std_dev = Fin 0, min_val = Fin 0, max_val = Fin 0, count_val = 0\<rparr>"
  by (simp add: analyze_data_def)

lemma analyze_data_Inr:
  assumes "data \<noteq> []" and "analyze_data data = Inr r"
  shows "\<exists>m med var sd.
     calc_mean (map value data) (int (length data)) = Inr m \<and>
     calc_median (py_sorted (map value data)) (int (length data)) = Inr med \<and>
     calc_variance (map value data) m (int (length data)) = Inr var \<and>
     py_pow_half var = Inr sd \<and>
     py_round2 m = Inr (mean r) \<and>
     py_round2 med = Inr (median r) \<and>
     py_round2 sd = Inr (std_dev r) \<and>
     py_min (map value data) = Inr (min_val r) \<and>
     py_max (map value data) = Inr (max_val r) \<and>
     count_val r = int (length data)"
  using assms by (auto simp: analyze_data_def Let_def bind_res_Inr_iff)

lemma analyze_data_Inl:
  assumes "data \<noteq> []" and "analyze_data data = Inl e"
  shows "calc_mean (map value data) (int (length data)) = Inl e \<or>
     calc_median (py_sorted (map value data)) (int (length data)) = Inl e \<or>
     (\<exists>m. calc_mean (map value data) (int (length data)) = Inr m \<and>
        (calc_variance (map value data) m (int (length data)) = Inl e \<or>
         (\<exists>var. calc_variance (map value data) m (int (length data)) = Inr var \<and>
            (py_pow_half var = Inl e \<or> py_round2 m = Inl e \<or>
             (\<exists>med. calc_median (py_sorted (map value data)) (int (length data)) = Inr med \<and> py_round2 med = Inl e) \<or>
             (\<exists>sd. py_pow_half var = Inr sd \<and> py_round2 sd = Inl e) \<or>
             py_min (map value data) = Inl e \<or> py_max (map value data) = Inl e))))"
  using assms by (auto simp: analyze_data_def Let_def bind_res_Inl_iff)

subsection \<open>Sorting, minimum and maximum on finite values\<close>

lemma map_Fin_fin_val: "list_all finite_float vs \<Longrightarrow> map Fin (map fin_val vs) = vs"
  by (induction vs) (auto simp: finite_float_def split: pyfloat.splits)

lemma finite_input_values:
  "finite_input data \<Longrightarrow> map value data = map Fin (map fin_val (map value data))"
  by (simp add: finite_input_def map_Fin_fin_val list_all_iff del: map_map)

lemma py_insort_Fin: "py_insort (Fin x) (map Fin ys) = map Fin (insort x ys)"
  by (induction ys) auto

lemma py_sorted_Fin: "py_sorted (map Fin xs) = map Fin (sort xs)"
  by (induction xs) (simp_all add: py_sorted_def py_insort_Fin sort_key_def)

lemma length_py_insort [simp]: "length (py_insort x ys) = Suc (length ys)"
  by (induction ys) auto

lemma length_py_sorted [simp]: "length (py_sorted xs) = length xs"
  by (induction xs) (simp_all add: py_sorted_def)

lemma mset_py_insort [simp]: "mset (py_insort x ys) = add_mset x (mset ys)"
  by (induction ys) auto

lemma mset_py_sorted [simp]: "mset (py_sorted xs) = mset xs"
  by (induction xs) (simp_all add: py_sorted_def)

lemma py_le_Fin [simp]: "py_le (Fin a) (Fin b) \<longleftrightarrow> a \<le> b"
  by (auto simp: py_le_def)

lemma sorted_wrt_py_le_Fin: "sorted_wrt py_le (map Fin xs) \<longleftrightarrow> sorted xs"
  by (induction xs) auto

lemma foldl_min_Fin:
  "foldl (\<lambda>m y. if py_lt y m then y else m) (Fin a) (map Fin ys) = Fin (fold min ys a)"
proof (induction ys arbitrary: a)
  case Nil then show ?case by simp
next
  case (Cons y ys)
  have "(if y < a then y else a) = min y a" by (simp add: min_def)
  then show ?case using Cons.IH by simp
qed

lemma foldl_max_Fin:
  "foldl (\<lambda>m y. if py_lt m y then y else m) (Fin a) (map Fin ys) = Fin (fold max ys a)"
proof (induction ys arbitrary: a)
  case Nil then show ?case by simp
next
  case (Cons y ys)
  have "(if a < y then y else a) = max y a" by (simp add: max_def)
  then show ?case using Cons.IH by simp
qed

lemma py_min_Fin: "xs \<noteq> [] \<Longrightarrow> py_min (map Fin xs) = Inr (Fin (Min (set xs)))"
  by (cases xs) (simp_all add: foldl_min_Fin Min.set_eq_fold [symmetric])

lemma py_max_Fin: "xs \<noteq> [] \<Longrightarrow> py_max (map Fin xs) = Inr (Fin (Max (set xs)))"
  by (cases xs) (simp_all add: foldl_max_Fin Max.set_eq_fold [symmetric])

lemma calc_median_eq_spec:
  assumes "s \<noteq> []"
  shows "calc_median s (int (length s)) = spec_median s"
proof -
  define c where "c = length s"
  have c0: "0 < c" using assms by (simp add: c_def)
  show ?thesis
  proof (cases "even c")
    case True
    then have c2: "2 \<le> c" using c0 by presburger
    have i1: "nat (int c div 2 - 1) = c div 2 - 1" using c2 by (simp add: nat_diff_distrib' nat_div_distrib)
    have i2: "nat (int c div 2) = c div 2" by (simp add: nat_div_distrib)
    have r1: "\<not> (int c div 2 - 1 < - int c \<or> int c \<le> int c div 2 - 1)" "\<not> int c div 2 - 1 < 0"
      using c2 by auto
    have r2: "\<not> (int c div 2 < - int c \<or> int c \<le> int c div 2)" "\<not> int c div 2 < 0"
      using c2 by auto
    have ev: "int c mod 2 = 0" using True by presburger
    show ?thesis
      unfolding calc_median_def spec_median_def py_getitem_def c_def [symmetric] Let_def
      using True ev r1 r2 i1 i2 by simp
  next
    case False
    have i2: "nat (int c div 2) = c div 2" by (simp add: nat_div_distrib)
    have r2: "\<not> (int c div 2 < - int c \<or> int c \<le> int c div 2)" "\<not> int c div 2 < 0"
      using c0 by auto
    have od: "int c mod 2 \<noteq> 0" using False by presburger
    show ?thesis
      unfolding calc_median_def spec_median_def py_getitem_def c_def [symmetric] Let_def
      using False od r2 i2 by simp
  qed
qed

section \<open>The result depends on the values alone\<close>

text \<open>
  Claim C10. Two requests whose value sequences are equal get the same answer from
  \<open>analyze_data\<close>, whatever their timestamps are: the function reads \<open>point.value\<close> and
  nothing else.
\<close>

theorem analyze_data_ignores_timestamps:
  "map value d1 = map value d2 \<Longrightarrow> analyze_data d1 = analyze_data d2"
  by (simp add: analyze_data_def)

theorem analyze_data_ignores_timestamps_witness:
  "map value [\<lparr>value = Fin 1, timestamp = ''2024-01-01T00:00:00''\<rparr>]
     = map value [\<lparr>value = Fin 1, timestamp = ''not a date''\<rparr>]
   \<and> analyze_data [\<lparr>value = Fin 1, timestamp = ''2024-01-01T00:00:00''\<rparr>]
     = analyze_data [\<lparr>value = Fin 1, timestamp = ''not a date''\<rparr>]"
  using analyze_data_ignores_timestamps
    [of "[\<lparr>value = Fin 1, timestamp = ''2024-01-01T00:00:00''\<rparr>]"
        "[\<lparr>value = Fin 1, timestamp = ''not a date''\<rparr>]"]
  by simp

section \<open>A worked example\<close>

lemma example4_rounding:
  "rnd 1 = Fin 1"
  "rnd 2 = Fin 2"
  "rnd 3 = Fin 3"
  "rnd 4 = Fin 4"
  "rnd 6 = Fin 6"
  "rnd 10 = Fin 10"
  "rnd (5 / 2) = Fin (5 / 2)"
  "rnd 5 = Fin 5"
  "rnd (- (3 / 2)) = Fin (- (3 / 2))"
  "rnd (9 / 4) = Fin (9 / 4)"
  "rnd (- (1 / 2)) = Fin (- (1 / 2))"
  "rnd (1 / 4) = Fin (1 / 4)"
  "rnd (1 / 2) = Fin (1 / 2)"
  "rnd (11 / 4) = Fin (11 / 4)"
  "rnd (3 / 2) = Fin (3 / 2)"
  "rnd (5 / 4) = Fin (5 / 4)"
  "rhe 250 = 250"
  "rhe (15734929547254925 / 140737488355328) = 112"
  "rnd (28 / 25) = Fin (1261007895663739 / 1125899906842624)"
  using rnd_exact [of 1 0]
    rnd_exact [of 1 1]
    rnd_exact [of 3 0]
    rnd_exact [of 1 2]
    rnd_exact [of 3 1]
    rnd_exact [of 5 1]
    rnd_exact [of 5 "- 1"]
    rnd_exact [of 5 0]
    rnd_exact [of "- 3" "- 1"]
    rnd_exact [of 9 "- 2"]
    rnd_exact [of "- 1" "- 1"]
    rnd_exact [of 1 "- 2"]
    rnd_exact [of 1 "- 1"]
    rnd_exact [of 11 "- 2"]
    rnd_exact [of 3 "- 1"]
    rnd_exact [of 5 "- 2"]
    rhe_near [of "250" 250]
    rhe_near [of "15734929547254925 / 140737488355328" 112]
    rnd_near [of "28 / 25" "- 52" 5044031582654956]
  by simp_all

lemma example4_aux1: "sqrt_rnd (5 / 4) = Fin (629397181890197 / 562949953421312)"
  by code_simp

lemma analyze_data_four:
  "analyze_data [\<lparr>value = Fin 1, timestamp = t1\<rparr>, \<lparr>value = Fin 2, timestamp = t2\<rparr>, \<lparr>value = Fin 3, timestamp = t3\<rparr>, \<lparr>value = Fin 4, timestamp = t4\<rparr>] =
     Inr \<lparr>mean = Fin (5 / 2), median = Fin (5 / 2), std_dev = Fin (1261007895663739 / 1125899906842624), min_val = Fin 1, max_val = Fin 4, count_val = 4\<rparr>"
  by (simp add: analyze_data_def calc_mean_def calc_median_def calc_variance_def py_sum_def bind_res_def float_of_int_def py_getitem_def fsub_def py_sorted_def
      example4_rounding example4_aux1)

text \<open>
  Claim C8. On the values 1.0, 2.0, 3.0, 4.0 the result is mean 2.5, median 2.5,
  standard deviation 1.12, minimum 1.0, maximum 4.0 and count 4. The float written
  \<open>1.12\<close> is the binary64 number nearest to 112/100, which the second conjunct
  identifies.
\<close>

theorem analyze_data_example:
  "analyze_data [\<lparr>value = Fin 1, timestamp = t1\<rparr>, \<lparr>value = Fin 2, timestamp = t2\<rparr>, \<lparr>value = Fin 3, timestamp = t3\<rparr>, \<lparr>value = Fin 4, timestamp = t4\<rparr>] =
     Inr \<lparr>mean = Fin (5 / 2), median = Fin (5 / 2), std_dev = Fin (1261007895663739 / 1125899906842624), min_val = Fin 1, max_val = Fin 4, count_val = 4\<rparr>
   \<and> rnd (112 / 100) = Fin (1261007895663739 / 1125899906842624)"
  using example4_rounding by (simp add: analyze_data_four)

section \<open>Inputs on which two claims fail\<close>

lemma eighth_rounding:
  "rnd (1 / 8) = Fin (1 / 8)"
  "rnd 1 = Fin 1"
  "rnd (3 / 25) = Fin (1080863910568919 / 9007199254740992)"
  "rhe 0 = 0"
  using rnd_exact [of 1 "- 3"]
    rnd_exact [of 1 0]
    rnd_near [of "3 / 25" "- 56" 8646911284551352]
    rhe_near [of "0" 0]
  by simp_all

lemma eighth_aux1: "rhe (25 / 2) = 12"
  by (simp add: rhe_def Let_def)

lemma analyze_data_eighth:
  "analyze_data [\<lparr>value = Fin (1 / 8), timestamp = ''''\<rparr>] =
     Inr \<lparr>mean = Fin (1080863910568919 / 9007199254740992), median = Fin (1080863910568919 / 9007199254740992), std_dev = Fin 0, min_val = Fin (1 / 8), max_val = Fin (1 / 8), count_val = 1\<rparr>"
  by (simp add: analyze_data_def calc_mean_def calc_median_def calc_variance_def py_sum_def bind_res_def float_of_int_def py_getitem_def fsub_def py_sorted_def
      eighth_rounding eighth_aux1)

text \<open>
  Claim C1 as stated fails: on the single value 0.125 the mean is returned as 0.12 (the
  tie 12.5 rounds to the even 12), below the minimum 0.125, which is returned unrounded.
\<close>

theorem rounded_mean_below_min:
  "finite_float (Fin (1 / 8)) \<and>
   (case analyze_data [\<lparr>value = Fin (1 / 8), timestamp = ''''\<rparr>] of
      Inl e \<Rightarrow> False
    | Inr r \<Rightarrow> \<not> py_le (min_val r) (mean r))"
  by (simp add: analyze_data_eighth finite_float_def is_float64_def py_le_def eighth_rounding)

lemma huge_rounding:
  "rnd 4149515568880992958512407863691161151012446232242436899995657329690652811412908146399707048947103794288197886611300789182395151075411775307886874834113963687061181803401509523685376 = Fin 4149515568880992958512407863691161151012446232242436899995657329690652811412908146399707048947103794288197886611300789182395151075411775307886874834113963687061181803401509523685376"
  "rnd (- 4149515568880992958512407863691161151012446232242436899995657329690652811412908146399707048947103794288197886611300789182395151075411775307886874834113963687061181803401509523685376) = Fin (- 4149515568880992958512407863691161151012446232242436899995657329690652811412908146399707048947103794288197886611300789182395151075411775307886874834113963687061181803401509523685376)"
  "rnd 2 = Fin 2"
  "rnd 17218479456385750618067377696052635483579924745448689921733236816400740691241745619397484537236046173286370919031961587788584927290816661024991609882728717344659503471655990880884679896520055123906467064419056526231345685268240569209892573766037966584735183775739433978714578587782701380797240772477647874555986712746271362892227516205318914435913511141036261376 = PInf"
  using rnd_exact [of 1 600]
    rnd_exact [of "- 1" 600]
    rnd_exact [of 1 1]
    rnd_overflow [of "17218479456385750618067377696052635483579924745448689921733236816400740691241745619397484537236046173286370919031961587788584927290816661024991609882728717344659503471655990880884679896520055123906467064419056526231345685268240569209892573766037966584735183775739433978714578587782701380797240772477647874555986712746271362892227516205318914435913511141036261376"]
  by simp_all

text \<open>
  Claim C2 as stated fails: the two finite values \<open>2 ^ 600\<close> and \<open>- (2 ^ 600)\<close> have mean
  0, and squaring the first deviation raises \<open>OverflowError\<close>.
\<close>

theorem analyze_data_overflow:
  "finite_float (Fin (2 ^ 600)) \<and> finite_float (Fin (- (2 ^ 600))) \<and>
   analyze_data [\<lparr>value = Fin (2 ^ 600), timestamp = ''''\<rparr>,
                 \<lparr>value = Fin (- (2 ^ 600)), timestamp = ''''\<rparr>] = Inl OverflowError"
  by (simp add: finite_float_def is_float64_def analyze_data_def calc_mean_def calc_median_def calc_variance_def py_sum_def bind_res_def float_of_int_def py_getitem_def fsub_def py_sorted_def
      huge_rounding)

section \<open>The median, the extremes and the rounding\<close>

lemma py_round2_two_decimals: "py_round2 x = Inr y \<Longrightarrow> two_decimals x y"
proof (cases x)
  case (Fin a)
  assume "py_round2 x = Inr y"
  then have "y = rnd (of_int (rhe (a * 100)) / 100)"
    using Fin by (auto split: pyfloat.splits)
  moreover have "\<bar>a * 100 - of_int (rhe (a * 100))\<bar> \<le> 1 / 2"
    using rhe_dist [of "a * 100"] by (simp add: abs_minus_commute)
  ultimately show ?thesis using Fin by (auto simp: two_decimals_def)
qed (auto simp: two_decimals_def)

lemma py_min_finite:
  assumes "list_all finite_float vs" and "py_min vs = Inr mn"
  shows "mn \<in> set vs" and "\<forall>v\<in>set vs. py_le mn v"
proof -
  define xs where "xs = map fin_val vs"
  have vs: "vs = map Fin xs" unfolding xs_def using map_Fin_fin_val [OF assms(1)] by simp
  have ne: "xs \<noteq> []" using assms(2) vs by (cases xs) auto
  from py_min_Fin [OF ne] assms(2) have mn: "mn = Fin (Min (set xs))" by (simp add: vs)
  have "Min (set xs) \<in> set xs" using ne by (intro Min_in) auto
  then show "mn \<in> set vs" by (simp add: mn vs)
  show "\<forall>v\<in>set vs. py_le mn v" by (auto simp: mn vs)
qed

lemma py_max_finite:
  assumes "list_all finite_float vs" and "py_max vs = Inr mx"
  shows "mx \<in> set vs" and "\<forall>v\<in>set vs. py_le v mx"
proof -
  define xs where "xs = map fin_val vs"
  have vs: "vs = map Fin xs" unfolding xs_def using map_Fin_fin_val [OF assms(1)] by simp
  have ne: "xs \<noteq> []" using assms(2) vs by (cases xs) auto
  from py_max_Fin [OF ne] assms(2) have mx: "mx = Fin (Max (set xs))" by (simp add: vs)
  have "Max (set xs) \<in> set xs" using ne by (intro Max_in) auto
  then show "mx \<in> set vs" by (simp add: mx vs)
  show "\<forall>v\<in>set vs. py_le v mx" by (auto simp: mx vs)
qed

lemma finite_input_list_all: "finite_input data \<Longrightarrow> list_all finite_float (map value data)"
  by (simp add: finite_input_def list_all_iff)

lemma py_sorted_finite:
  assumes "list_all finite_float vs"
  shows "sorted_wrt py_le (py_sorted vs)"
proof -
  have "vs = map Fin (map fin_val vs)" using map_Fin_fin_val [OF assms] by simp
  then have "py_sorted vs = map Fin (sort (map fin_val vs))" by (metis py_sorted_Fin)
  then show ?thesis by (simp add: sorted_wrt_py_le_Fin)
qed

lemma sum_sq_dev_collect:
  "sum_sq_dev m acc vs =
     bind_res (collect (map (\<lambda>x. py_pow2 (fsub x m)) vs)) (\<lambda>qs. Inr (foldl fadd acc qs))"
proof (induction vs arbitrary: acc)
  case Nil then show ?case by simp
next
  case (Cons v vs)
  show ?case
    by (cases "py_pow2 (fsub v m)"; cases "collect (map (\<lambda>x. py_pow2 (fsub x m)) vs)")
       (simp_all add: Cons.IH)
qed

text \<open>
  Claim C3. For a non-empty list of finite values, the list that \<open>analyze_data\<close> takes the
  median from is ascending and holds the same values as the input, and the median returned
  is (rounded to two decimals) the average of the elements at indices \<open>n/2 - 1\<close> and \<open>n/2\<close>
  of it when \<open>n\<close> is even, and the element at index \<open>n/2\<close> when \<open>n\<close> is odd.
\<close>

theorem median_of_sorted_copy:
  assumes "data \<noteq> []" and "finite_input data" and "analyze_data data = Inr r"
  shows "sorted_wrt py_le (py_sorted (map value data)) \<and>
         mset (py_sorted (map value data)) = mset (map value data) \<and>
         (\<exists>med. spec_median (py_sorted (map value data)) = Inr med \<and>
                py_round2 med = Inr (median r))"
proof -
  from analyze_data_Inr [OF assms(1,3)] obtain med where
    med: "calc_median (py_sorted (map value data)) (int (length data)) = Inr med"
      "py_round2 med = Inr (median r)" by blast
  have "py_sorted (map value data) \<noteq> []" using assms(1) by (metis length_py_sorted length_0_conv map_is_Nil_conv)
  from calc_median_eq_spec [OF this] med(1)
  have "spec_median (py_sorted (map value data)) = Inr med" by simp
  then show ?thesis
    using med(2) py_sorted_finite [OF finite_input_list_all [OF assms(2)]] by auto
qed

lemma four_points_finite: "finite_input four_points"
  using is_float64_of_int [of 1] is_float64_of_int [of 2] is_float64_of_int [of 3]
    is_float64_of_int [of 4]
  by (simp add: finite_input_def finite_float_def)

theorem median_of_sorted_copy_witness:
  "four_points \<noteq> [] \<and> finite_input four_points \<and> analyze_data four_points = Inr four_result \<and>
   (\<exists>med. spec_median (py_sorted (map value four_points)) = Inr med \<and>
          py_round2 med = Inr (median four_result))"
proof -
  have h1: "four_points \<noteq> []" by simp
  have h3: "analyze_data four_points = Inr four_result" by (rule analyze_data_four)
  from median_of_sorted_copy [OF h1 four_points_finite h3] h1 four_points_finite h3
  show ?thesis by blast
qed

section \<open>The sample generator\<close>

lemma float_of_int_small:
  assumes "\<bar>n\<bar> < 2 ^ 53"
  shows "float_of_int n = Inr (Fin (of_int n))"
  using rnd_exact [OF assms, of 0] by (simp add: float_of_int_def)

lemma py_random_range: "\<exists>r. py_random w = Fin r \<and> 0 \<le> r \<and> r < 1"
proof -
  define n where "n = unat w"
  have "n < 2 ^ 53" unfolding n_def using unsigned_less [of w] by simp
  then have "real n < 2 ^ 53" by (metis of_nat_less_iff of_nat_numeral of_nat_power)
  then have "0 \<le> real n / 2 ^ 53" "real n / 2 ^ 53 < 1" by simp_all
  then show ?thesis unfolding py_random_def n_def [symmetric] by blast
qed

lemma uniform_10_100:
  assumes "0 \<le> r" and "r < 1"
  shows "\<exists>u. uniform 10 100 (Fin r) = Inr (Fin u) \<and> 10 \<le> u \<and> u \<le> 100"
proof -
  have f0: "is_float64 0" by (simp add: is_float64_def)
  have f90: "is_float64 90" using is_float64_of_int [of 90] by simp
  have f10: "is_float64 10" using is_float64_of_int [of 10] by simp
  have f100: "is_float64 100" using is_float64_of_int [of 100] by simp
  have "0 \<le> 90 * r" "90 * r \<le> 90" using assms by auto
  from rnd_between [OF this f0 f90] obtain t where t: "rnd (90 * r) = Fin t" "0 \<le> t" "t \<le> 90"
    by blast
  have "10 \<le> 10 + t" "10 + t \<le> 100" using t by auto
  from rnd_between [OF this f10 f100] obtain u where u: "rnd (10 + t) = Fin u" "10 \<le> u" "u \<le> 100"
    by blast
  have "uniform 10 100 (Fin r) = Inr (Fin u)"
    using float_of_int_small [of 90] float_of_int_small [of 10] t(1) u(1)
    by (simp add: uniform_def)
  with u show ?thesis by blast
qed

lemma py_round2_between:
  assumes "of_int a / 100 \<le> x" and "x \<le> of_int b / 100"
    and "is_float64 (of_int a / 100)" and "is_float64 (of_int b / 100)"
  shows "\<exists>y. py_round2 (Fin x) = Inr (Fin y) \<and> of_int a / 100 \<le> y \<and> y \<le> of_int b / 100"
proof -
  have "of_int a \<le> x * 100" "x * 100 \<le> of_int b" using assms(1,2) by (auto simp: field_simps)
  then have "a \<le> rhe (x * 100)" "rhe (x * 100) \<le> b" by (auto intro: rhe_ge rhe_le)
  then have "real_of_int a / 100 \<le> of_int (rhe (x * 100)) / 100"
    "real_of_int (rhe (x * 100)) / 100 \<le> of_int b / 100"
    by (auto simp: divide_right_mono)
  from rnd_between [OF this assms(3,4)] show ?thesis by auto
qed

lemma py_round2_10_100:
  assumes "10 \<le> u" and "u \<le> 100"
  shows "\<exists>v. py_round2 (Fin u) = Inr (Fin v) \<and> 10 \<le> v \<and> v \<le> 100"
proof -
  have f10: "is_float64 (of_int 1000 / 100)" using is_float64_of_int [of 10] by simp
  have f100: "is_float64 (of_int 10000 / 100)" using is_float64_of_int [of 100] by simp
  have "of_int 1000 / 100 \<le> u" "u \<le> of_int 10000 / 100" using assms by auto
  from py_round2_between [OF this f10 f100] show ?thesis by simp
qed

lemma gen_points_ok:
  "\<exists>ps. gen_points isoformat base_time rs ixs = Inr ps \<and> length ps = length ixs \<and>
        (\<forall>p\<in>set ps. \<exists>v. value p = Fin v \<and> 10 \<le> v \<and> v \<le> 100)"
proof (induction ixs)
  case Nil then show ?case by simp
next
  case (Cons i ixs)
  then obtain ps where ps: "gen_points isoformat base_time rs ixs = Inr ps" "length ps = length ixs"
    "\<forall>p\<in>set ps. \<exists>v. value p = Fin v \<and> 10 \<le> v \<and> v \<le> 100" by blast
  obtain r where r: "py_random (rs i) = Fin r" "0 \<le> r" "r < 1" using py_random_range by blast
  from uniform_10_100 [OF r(2,3)] obtain u where u: "uniform 10 100 (Fin r) = Inr (Fin u)" "10 \<le> u" "u \<le> 100"
    by blast
  from py_round2_10_100 [OF u(2,3)] obtain v where v: "py_round2 (Fin u) = Inr (Fin v)" "10 \<le> v" "v \<le> 100"
    by blast
  show ?case using ps r(1) u(1) v by simp
qed

text \<open>
  Claim C7. Whatever the random draws and the clock are, \<open>generate_sample_data\<close> returns
  without error; it returns exactly 1000 points when \<open>count\<close> exceeds 1000, none when
  \<open>count\<close> is zero or negative, \<open>count\<close> points in between, and the value of every point is
  a finite float in the interval from 10 to 100. The count it reports is the number of
  points.
\<close>

theorem generate_sample_data_ok:
  "\<exists>data. generate_sample_data isoformat base_time rs count_req = Inr (data, int (length data)) \<and>
     (1000 < count_req \<longrightarrow> length data = 1000) \<and>
     (count_req \<le> 0 \<longrightarrow> data = []) \<and>
     (0 \<le> count_req \<and> count_req \<le> 1000 \<longrightarrow> int (length data) = count_req) \<and>
     (\<forall>p\<in>set data. \<exists>v. value p = Fin v \<and> 10 \<le> v \<and> v \<le> 100)"
proof -
  define c where "c = (if 1000 < count_req then 1000 else count_req)"
  from gen_points_ok [of isoformat base_time rs "[0..<nat c]"] obtain ps where
    ps: "gen_points isoformat base_time rs [0..<nat c] = Inr ps" "length ps = nat c"
    "\<forall>p\<in>set ps. \<exists>v. value p = Fin v \<and> 10 \<le> v \<and> v \<le> 100" by auto
  have "generate_sample_data isoformat base_time rs count_req = Inr (ps, int (length ps))"
    using ps(1) by (simp add: generate_sample_data_def c_def)
  moreover have "1000 < count_req \<longrightarrow> length ps = 1000" using ps(2) by (simp add: c_def)
  moreover have "count_req \<le> 0 \<longrightarrow> ps = []" using ps(2) by (auto simp: c_def)
  moreover have "0 \<le> count_req \<and> count_req \<le> 1000 \<longrightarrow> int (length ps) = count_req"
    using ps(2) by (simp add: c_def)
  ultimately show ?thesis using ps(3) by blast
qed

theorem generate_sample_data_ok_witness:
  "(1000::int) < 2000 \<and>
   (\<exists>data. generate_sample_data (\<lambda>t. ''now'') 0 (\<lambda>i. 0) 2000 = Inr (data, 1000) \<and>
      length data = 1000) \<and>
   (- 5 :: int) \<le> 0 \<and>
   generate_sample_data (\<lambda>t. ''now'') 0 (\<lambda>i. 0) (- 5) = Inr ([], 0) \<and>
   (\<exists>p v. generate_sample_data (\<lambda>t. ''now'') 0 (\<lambda>i. 0) 1 = Inr ([p], 1) \<and>
      value p = Fin v \<and> 10 \<le> v \<and> v \<le> 100)"
proof -
  from generate_sample_data_ok [of "\<lambda>t. ''now''" 0 "\<lambda>i. 0" 2000]
  have 1: "\<exists>data. generate_sample_data (\<lambda>t. ''now'') 0 (\<lambda>i. 0) 2000 = Inr (data, 1000) \<and>
      length data = 1000" by auto
  from generate_sample_data_ok [of "\<lambda>t. ''now''" 0 "\<lambda>i. 0" "- 5"]
  have 2: "generate_sample_data (\<lambda>t. ''now'') 0 (\<lambda>i. 0) (- 5) = Inr ([], 0)" by auto
  from generate_sample_data_ok [of "\<lambda>t. ''now''" 0 "\<lambda>i. 0" 1]
  obtain data where d: "generate_sample_data (\<lambda>t. ''now'') 0 (\<lambda>i. 0) 1 = Inr (data, int (length data))"
    "int (length data) = 1" "\<forall>p\<in>set data. \<exists>v. value p = Fin v \<and> 10 \<le> v \<and> v \<le> 100" by auto
  from d(2) obtain p where "data = [p]" by (cases data) auto
  with d have 3: "\<exists>p v. generate_sample_data (\<lambda>t. ''now'') 0 (\<lambda>i. 0) 1 = Inr ([p], 1) \<and>
      value p = Fin v \<and> 10 \<le> v \<and> v \<le> 100" by auto
  from 1 2 3 show ?thesis by simp
qed

section \<open>When analyze_data fails\<close>

lemma float_value_rnd [simp]: "float_value (rnd x)"
  by (cases "rnd x") (auto simp: float_value_def dest: rnd_idem)

lemma float_value_fadd [simp]: "float_value (fadd a b)"
  by (cases a; cases b) (simp_all add: float_value_def [of PInf] float_value_def [of NInf] float_value_def [of NaN])

lemma float_value_py_truediv: "py_truediv a b = Inr c \<Longrightarrow> float_value c"
  by (cases a; cases b) (auto simp: float_value_def [of PInf] float_value_def [of NInf] float_value_def [of NaN] float_value_def [of "Fin 0"] is_float64_def split: if_splits)

lemma float_value_sqrt_rnd [simp]: "float_value (sqrt_rnd v)"
  by (simp add: sqrt_rnd_def Let_def)

lemma float_value_py_pow_half: "py_pow_half a = Inr c \<Longrightarrow> float_value c"
proof -
  have "rnd 1 = Fin 1" using rnd_exact [of 1 0] by simp
  then show "py_pow_half a = Inr c \<Longrightarrow> float_value c"
    by (cases a) (auto simp: float_value_def [of PInf] float_value_def [of NInf] float_value_def [of NaN] float_value_def [of "Fin 0"] float_value_def [of "Fin 1"] is_float64_def split: if_splits)
qed

lemma is_float64_integer:
  assumes "is_float64 x" and "2 ^ 53 \<le> \<bar>x\<bar>"
  shows "\<exists>n. x = of_int n"
proof -
  have x0: "x \<noteq> 0" using assms(2) by auto
  have pp: "(2::real) ^ 53 = 2 powi 53" by simp
  from expo_upper [OF x0] assms(2) have "(2::real) powi 53 < 2 powi (expo x + 53)"
    unfolding pp by linarith
  then have e: "0 < expo x" by (simp only: p2_less_iff)
  have "x = round_to_grid x" using assms(1) by (simp add: is_float64_iff)
  also have "\<dots> = of_int (rhe (x / 2 powi expo x)) * 2 ^ nat (expo x)"
    using e by (simp add: round_to_grid_def power_int_nonneg_exp)
  also have "\<dots> = of_int (rhe (x / 2 powi expo x) * 2 ^ nat (expo x))" by simp
  finally show ?thesis by blast
qed

lemma py_round2_float:
  assumes "is_float64 x"
  shows "\<exists>y. py_round2 (Fin x) = Inr (Fin y)"
proof (cases "\<bar>x\<bar> < 2 ^ 53")
  case True
  have fa: "is_float64 (of_int (- (2 ^ 60)) / 100 * 100)" "is_float64 (of_int (2 ^ 60) / 100 * 100)"
    using is_float64_dyadic [of "- 1" 60] is_float64_dyadic [of 1 60] by simp_all
  have "\<bar>of_int (rhe (x * 100)) - x * 100\<bar> \<le> 1 / 2" by (rule rhe_dist)
  then have "\<bar>real_of_int (rhe (x * 100)) / 100\<bar> \<le> \<bar>x\<bar> + 1" by (auto simp: abs_if split: if_splits)
  then have b: "- (2 ^ 60) \<le> real_of_int (rhe (x * 100)) / 100" "real_of_int (rhe (x * 100)) / 100 \<le> 2 ^ 60"
    using True by (auto simp: abs_if split: if_splits)
  have f1: "is_float64 (- (2 ^ 60))" "is_float64 (2 ^ 60)"
    using is_float64_dyadic [of "- 1" 60] is_float64_dyadic [of 1 60] by simp_all
  from rnd_between [OF b f1] show ?thesis by auto
next
  case False
  then have "2 ^ 53 \<le> \<bar>x\<bar>" by simp
  from is_float64_integer [OF assms this] obtain n where n: "x = of_int n" by blast
  have "x * 100 = of_int (n * 100)" by (simp add: n)
  then have "rhe (x * 100) = n * 100" by (simp only: rhe_of_int)
  then have "real_of_int (rhe (x * 100)) / 100 = x" by (simp add: n)
  then show ?thesis using assms by (simp add: is_float64_def)
qed

lemma py_round2_total: "float_value v \<Longrightarrow> \<exists>y. py_round2 v = Inr y"
  using py_round2_float by (cases v) (auto simp: float_value_def simp del: py_round2.simps(1)) 

lemma py_round2_error: "py_round2 v = Inl e \<Longrightarrow> e = OverflowError"
  by (cases v) (auto split: pyfloat.splits)

lemma py_pow2_error: "py_pow2 v = Inl e \<Longrightarrow> e = OverflowError"
  by (cases v) (auto split: pyfloat.splits)

lemma float_of_int_error: "float_of_int n = Inl e \<Longrightarrow> e = OverflowError"
  by (auto simp: float_of_int_def split: pyfloat.splits)

lemma float_of_int_pos:
  assumes "1 \<le> n" and "float_of_int n = Inr c"
  shows "\<exists>y. c = Fin y \<and> 1 \<le> y"
proof -
  from assms(2) obtain y where y: "rnd (of_int n) = Fin y" "c = Fin y"
    by (auto simp: float_of_int_def split: pyfloat.splits)
  have "rnd 1 = Fin 1" using rnd_exact [of 1 0] by simp
  moreover have "(1::real) \<le> of_int n" using assms(1) by simp
  ultimately have "1 \<le> y" using y(1) rnd_mono [of 1 "of_int n" 1 y] by simp
  with y show ?thesis by blast
qed


lemma nonneg_value_rnd: "0 \<le> z \<Longrightarrow> nonneg_value (rnd z)"
proof -
  assume z: "0 \<le> z"
  then have g: "0 \<le> round_to_grid z" by (rule round_to_grid_nonneg)
  have p: "(0::real) < 2 ^ 1024" by (rule zero_less_power) simp
  show ?thesis
  proof (cases "rnd z")
    case (Fin x)
    from Fin [unfolded rnd_Fin_iff] have "x = round_to_grid z" by blast
    then show ?thesis using g Fin by (simp add: nonneg_value_def)
  next
    case PInf then show ?thesis by (simp add: nonneg_value_def)
  next
    case NInf
    from NInf [unfolded rnd_NInf_iff] g p show ?thesis by linarith
  next
    case NaN then show ?thesis by simp
  qed
qed

lemma nonneg_value_fadd: "nonneg_value a \<Longrightarrow> nonneg_value b \<Longrightarrow> nonneg_value (fadd a b)"
  by (cases a; cases b) (auto simp: nonneg_value_def [of "Fin _"] nonneg_value_def [of PInf] nonneg_value_def [of NInf] nonneg_value_def [of NaN] intro: nonneg_value_rnd)

lemma nonneg_value_py_pow2: "a \<noteq> NaN \<Longrightarrow> py_pow2 a = Inr q \<Longrightarrow> nonneg_value q"
proof (cases a)
  case (Fin x)
  assume "py_pow2 a = Inr q"
  then have "q = rnd (x * x)" using Fin by (auto split: pyfloat.splits)
  then show ?thesis using nonneg_value_rnd [of "x * x"] by simp
qed (auto simp: nonneg_value_def)

lemma fadd_Fin_not_NaN: "a \<noteq> NaN \<Longrightarrow> fadd a (Fin b) \<noteq> NaN"
  by (cases a) simp_all

lemma fsub_Fin_not_NaN: "m \<noteq> NaN \<Longrightarrow> fsub (Fin x) m \<noteq> NaN"
  by (cases m) (simp_all add: fsub_def)

lemma foldl_fadd_not_NaN: "acc \<noteq> NaN \<Longrightarrow> foldl fadd acc (map Fin xs) \<noteq> NaN"
  by (induction xs arbitrary: acc) (simp_all add: fadd_Fin_not_NaN)

lemma py_sum_not_NaN:
  assumes "list_all finite_float vs"
  shows "py_sum vs \<noteq> NaN"
proof -
  have "foldl fadd (Fin 0) (map Fin (map fin_val vs)) \<noteq> NaN"
    by (rule foldl_fadd_not_NaN) simp
  then show ?thesis unfolding py_sum_def map_Fin_fin_val [OF assms] .
qed

lemma py_truediv_pos:
  assumes "0 < y"
  shows "\<exists>c. py_truediv a (Fin y) = Inr c \<and> float_value c \<and> (a \<noteq> NaN \<longrightarrow> c \<noteq> NaN) \<and>
           (nonneg_value a \<longrightarrow> nonneg_value c)"
proof (cases a)
  case (Fin x)
  have "0 \<le> x \<Longrightarrow> nonneg_value (rnd (x / y))" using assms by (intro nonneg_value_rnd) simp
  then show ?thesis using assms Fin by (simp add: nonneg_value_def [of "Fin _"])
qed (use assms in \<open>simp_all add: nonneg_value_def float_value_def\<close>)

lemma calc_mean_cases:
  assumes "list_all finite_float vs" and "1 \<le> n"
  shows "calc_mean vs n = Inl OverflowError \<or>
         (\<exists>m. calc_mean vs n = Inr m \<and> m \<noteq> NaN \<and> float_value m)"
proof (cases "float_of_int n")
  case (Inl e)
  then show ?thesis using float_of_int_error [of n e] by (simp add: calc_mean_def)
next
  case (Inr c)
  from float_of_int_pos [OF assms(2) Inr] obtain y where y: "c = Fin y" "1 \<le> y" by blast
  then have "0 < y" by simp
  from py_truediv_pos [OF this, of "py_sum vs"] py_sum_not_NaN [OF assms(1)]
  obtain d where "py_truediv (py_sum vs) (Fin y) = Inr d" "float_value d" "d \<noteq> NaN" by blast
  moreover have "calc_mean vs n = py_truediv (py_sum vs) (Fin y)"
    by (simp add: calc_mean_def Inr y(1) del: py_truediv.simps)
  ultimately show ?thesis by simp
qed

lemma spec_median_total:
  assumes "s \<noteq> []" and "list_all float_value s"
  shows "\<exists>med. spec_median s = Inr med \<and> float_value med"
proof (cases "even (length s)")
  case True
  from py_truediv_pos [of 2 "fadd (s ! (length s div 2 - 1)) (s ! (length s div 2))"]
  show ?thesis using True by (simp add: spec_median_def Let_def del: py_truediv.simps) blast
next
  case False
  have "length s div 2 < length s" using assms(1) by simp
  then have "float_value (s ! (length s div 2))" using assms(2) by (simp add: list_all_length)
  then show ?thesis using False by (simp add: spec_median_def Let_def)
qed

lemma finite_float_float_value: "finite_float v \<Longrightarrow> float_value v"
  by (cases v) (simp_all add: finite_float_def float_value_def)

lemma calc_median_total:
  assumes "vs \<noteq> []" and "list_all finite_float vs"
  shows "\<exists>med. calc_median (py_sorted vs) (int (length vs)) = Inr med \<and> float_value med"
proof -
  have ne: "py_sorted vs \<noteq> []" using assms(1) length_py_sorted [of vs] by (metis length_0_conv)
  have "set (py_sorted vs) = set vs" using mset_py_sorted [of vs] by (metis set_mset_mset)
  then have "list_all float_value (py_sorted vs)"
    using assms(2) by (auto simp: list_all_iff intro: finite_float_float_value)
  from spec_median_total [OF ne this] calc_median_eq_spec [OF ne] show ?thesis
    by (simp add: length_py_sorted)
qed

lemma sum_sq_dev_error:
  "sum_sq_dev m acc vs = Inl e \<Longrightarrow> e = OverflowError \<and> (\<exists>x\<in>set vs. py_pow2 (fsub x m) = Inl OverflowError)"
proof (induction vs arbitrary: acc)
  case Nil then show ?case by simp
next
  case (Cons x xs)
  then show ?case using py_pow2_error [of "fsub x m" e]
    by (auto simp: bind_res_Inl_iff)
qed

lemma sum_sq_dev_total:
  "\<forall>x\<in>set vs. py_pow2 (fsub x m) \<noteq> Inl OverflowError \<Longrightarrow> \<exists>s. sum_sq_dev m acc vs = Inr s"
proof (induction vs arbitrary: acc)
  case Nil then show ?case by simp
next
  case (Cons x xs)
  obtain q where "py_pow2 (fsub x m) = Inr q"
    using Cons.prems py_pow2_error [of "fsub x m"] by (cases "py_pow2 (fsub x m)") auto
  then show ?case using Cons by simp
qed

lemma sum_sq_dev_first_error:
  "\<exists>x\<in>set vs. py_pow2 (fsub x m) = Inl OverflowError \<Longrightarrow> sum_sq_dev m acc vs = Inl OverflowError"
proof (induction vs arbitrary: acc)
  case Nil then show ?case by simp
next
  case (Cons x xs)
  then show ?case by (cases "py_pow2 (fsub x m)") (auto dest: py_pow2_error)
qed

lemma sum_sq_dev_nonneg:
  "m \<noteq> NaN \<Longrightarrow> nonneg_value acc \<Longrightarrow> sum_sq_dev m acc (map Fin xs) = Inr s \<Longrightarrow> nonneg_value s"
proof (induction xs arbitrary: acc)
  case Nil then show ?case by simp
next
  case (Cons x xs)
  from Cons.prems(3) obtain q where q: "py_pow2 (fsub (Fin x) m) = Inr q"
    and s: "sum_sq_dev m (fadd acc q) (map Fin xs) = Inr s"
    by (auto simp: bind_res_Inr_iff)
  have "nonneg_value q" using fsub_Fin_not_NaN [OF Cons.prems(1)] q by (rule nonneg_value_py_pow2)
  then have "nonneg_value (fadd acc q)" using Cons.prems(2) by (intro nonneg_value_fadd)
  from Cons.IH [OF Cons.prems(1) this s] show ?case .
qed

lemma py_pow_half_nonneg:
  assumes "nonneg_value v"
  shows "\<exists>sd. py_pow_half v = Inr sd \<and> float_value sd"
proof -
  have "\<exists>sd. py_pow_half v = Inr sd" using assms by (cases v) (auto simp: nonneg_value_def)
  then show ?thesis using float_value_py_pow_half by blast
qed

lemma calc_variance_cases:
  assumes "list_all finite_float vs" and "1 \<le> n" and "m \<noteq> NaN"
  shows "calc_variance vs m n = Inl OverflowError \<or>
         (\<exists>var. calc_variance vs m n = Inr var \<and> nonneg_value var)"
proof (cases "sum_sq_dev m (Fin 0) vs")
  case (Inl e)
  then show ?thesis using sum_sq_dev_error [of m "Fin 0" vs e] by (simp add: calc_variance_def)
next
  case s: (Inr s)
  have "sum_sq_dev m (Fin 0) (map Fin (map fin_val vs)) = Inr s"
    using s unfolding map_Fin_fin_val [OF assms(1)] .
  then have ns: "nonneg_value s"
    by (rule sum_sq_dev_nonneg [OF assms(3), rotated]) (simp add: nonneg_value_def)
  show ?thesis
  proof (cases "float_of_int n")
    case (Inl e)
    then show ?thesis using float_of_int_error [of n e] s by (simp add: calc_variance_def)
  next
    case (Inr c)
    from float_of_int_pos [OF assms(2) Inr] obtain y where y: "c = Fin y" "1 \<le> y" by blast
    then have "0 < y" by simp
    from py_truediv_pos [OF this, of s] ns
    obtain d where "py_truediv s (Fin y) = Inr d" "nonneg_value d" by blast
    moreover have "calc_variance vs m n = py_truediv s (Fin y)"
      by (simp add: calc_variance_def s Inr y(1) del: py_truediv.simps)
    ultimately show ?thesis by simp
  qed
qed


lemma analyze_data_error:
  assumes "finite_input data" and "analyze_data data = Inl e"
  shows "e = OverflowError"
proof -
  define vs where "vs = map value data"
  define n where "n = int (length data)"
  have ne: "data \<noteq> []" using assms(2) by (auto simp: analyze_data_empty)
  then have n1: "1 \<le> n" by (cases data) (simp_all add: n_def)
  have vne: "vs \<noteq> []" using ne by (simp add: vs_def)
  have fin: "list_all finite_float vs" unfolding vs_def by (rule finite_input_list_all [OF assms(1)])
  have len: "int (length vs) = n" by (simp add: vs_def n_def)
  from calc_median_total [OF vne fin] have med: "calc_median (py_sorted vs) n \<noteq> Inl e"
    by (auto simp: len)
  have mn: "py_min vs \<noteq> Inl e" "py_max vs \<noteq> Inl e" using vne by (cases vs; simp)+
  note r2 = py_round2_error [of _ e]
  from analyze_data_Inl [OF ne assms(2)] med mn r2
  consider "calc_mean vs n = Inl e"
    | m where "calc_mean vs n = Inr m" "calc_variance vs m n = Inl e"
    | m var where "calc_mean vs n = Inr m" "calc_variance vs m n = Inr var" "py_pow_half var = Inl e"
    | "e = OverflowError"
    unfolding vs_def [symmetric] n_def [symmetric] by blast
  then show ?thesis
  proof cases
    case 1
    then show ?thesis using calc_mean_cases [OF fin n1] by auto
  next
    case 2
    then have "m \<noteq> NaN" using calc_mean_cases [OF fin n1] by auto
    from calc_variance_cases [OF fin n1 this] 2(2) show ?thesis by auto
  next
    case 3
    then have "m \<noteq> NaN" using calc_mean_cases [OF fin n1] by auto
    from calc_variance_cases [OF fin n1 this] 3(2) have "nonneg_value var" by auto
    from py_pow_half_nonneg [OF this] 3(3) show ?thesis by auto
  next
    case 4 then show ?thesis .
  qed
qed

lemma calc_mean_small:
  assumes "list_all finite_float vs" and "1 \<le> n" and "n < 2 ^ 53"
  shows "\<exists>m. calc_mean vs n = Inr m \<and> m \<noteq> NaN \<and> float_value m"
proof -
  have "float_of_int n = Inr (Fin (of_int n))" using assms(2,3) by (intro float_of_int_small) simp
  then have "calc_mean vs n \<noteq> Inl OverflowError"
    using py_truediv_pos [of "of_int n" "py_sum vs"] assms(2)
    by (auto simp: calc_mean_def simp del: py_truediv.simps)
  then show ?thesis using calc_mean_cases [OF assms(1,2)] by blast
qed

lemma analyze_data_returns_iff:
  assumes "finite_input data" and "data \<noteq> []" and "int (length data) < 2 ^ 53"
    and "calc_mean (map value data) (int (length data)) = Inr m"
  shows "(\<exists>r. analyze_data data = Inr r) \<longleftrightarrow>
         (\<forall>x\<in>set (map value data). py_pow2 (fsub x m) \<noteq> Inl OverflowError)"
proof
  assume "\<exists>r. analyze_data data = Inr r"
  then obtain r where "analyze_data data = Inr r" ..
  from analyze_data_Inr [OF assms(2) this] assms(4)
  obtain var where "calc_variance (map value data) m (int (length data)) = Inr var" by auto
  then obtain s where "sum_sq_dev m (Fin 0) (map value data) = Inr s"
    by (auto simp: calc_variance_def bind_res_Inr_iff)
  then show "\<forall>x\<in>set (map value data). py_pow2 (fsub x m) \<noteq> Inl OverflowError"
    using sum_sq_dev_first_error [of "map value data" m "Fin 0"] by auto
next
  assume a: "\<forall>x\<in>set (map value data). py_pow2 (fsub x m) \<noteq> Inl OverflowError"
  show "\<exists>r. analyze_data data = Inr r"
  proof (cases "analyze_data data")
    case (Inr r) then show ?thesis by blast
  next
    case (Inl e)
    define vs where "vs = map value data"
    define n where "n = int (length data)"
    have n1: "1 \<le> n" using assms(2) by (cases data) (simp_all add: n_def)
    have vne: "vs \<noteq> []" using assms(2) by (simp add: vs_def)
    have fin: "list_all finite_float vs" unfolding vs_def by (rule finite_input_list_all [OF assms(1)])
    have len: "int (length vs) = n" by (simp add: vs_def n_def)
    have cm: "calc_mean vs n = Inr m" using assms(4) by (simp add: vs_def n_def)
    then have m: "m \<noteq> NaN" "float_value m" using calc_mean_cases [OF fin n1] by auto
    from calc_median_total [OF vne fin] obtain med
      where med: "calc_median (py_sorted vs) n = Inr med" "float_value med" by (auto simp: len)
    from sum_sq_dev_total [OF a, of "Fin 0"] obtain s where s: "sum_sq_dev m (Fin 0) vs = Inr s"
      by (auto simp: vs_def)
    have fi: "float_of_int n = Inr (Fin (of_int n))"
      using n1 assms(3) by (intro float_of_int_small) (simp add: n_def)
    have "calc_variance vs m n \<noteq> Inl OverflowError"
      using py_truediv_pos [of "of_int n" s] n1
      by (auto simp: calc_variance_def s fi simp del: py_truediv.simps)
    with calc_variance_cases [OF fin n1 m(1)] obtain var
      where var: "calc_variance vs m n = Inr var" "nonneg_value var" by blast
    from py_pow_half_nonneg [OF var(2)] obtain sd where sd: "py_pow_half var = Inr sd" "float_value sd"
      by blast
    from py_round2_total [OF m(2)] py_round2_total [OF med(2)] py_round2_total [OF sd(2)]
    obtain rm rmed rsd where rr: "py_round2 m = Inr rm" "py_round2 med = Inr rmed" "py_round2 sd = Inr rsd"
      by blast
    obtain mn mx where mm: "py_min vs = Inr mn" "py_max vs = Inr mx" using vne by (cases vs) auto
    show ?thesis
      using vne cm med(1) var(1) sd(1) rr mm
      unfolding analyze_data_def Let_def vs_def [symmetric] len
      by simp
  qed
qed


lemma rnd_abs_le:
  assumes "\<bar>x\<bar> \<le> b" and "is_float64 b"
  shows "\<exists>r. rnd x = Fin r \<and> \<bar>r\<bar> \<le> b"
proof -
  have "rnd (- b) = Fin (- b)" using assms(2) by (simp add: rnd_minus is_float64_def)
  then have nb: "is_float64 (- b)" by (simp add: is_float64_def)
  have "- b \<le> x" "x \<le> b" using assms(1) by auto
  from rnd_between [OF this nb assms(2)] show ?thesis by auto
qed

lemma foldl_fadd_bounded:
  assumes "\<forall>x\<in>set xs. \<bar>x\<bar> \<le> 2 powi 500" and "\<bar>a\<bar> \<le> of_nat k * 2 powi 500"
    and "k + length xs < 2 ^ 53"
  shows "\<exists>s. foldl fadd (Fin a) (map Fin xs) = Fin s \<and> \<bar>s\<bar> \<le> of_nat (k + length xs) * 2 powi 500"
  using assms
proof (induction xs arbitrary: a k)
  case Nil then show ?case by simp
next
  case (Cons x xs)
  have "\<bar>x\<bar> \<le> 2 powi 500" using Cons.prems(1) by simp
  then have b: "\<bar>a + x\<bar> \<le> of_nat (Suc k) * 2 powi 500"
    using Cons.prems(2) by (simp add: algebra_simps)
  have "int (Suc k) < 2 ^ 53" using Cons.prems(3) by (simp add: of_nat_less_iff [of _ "2 ^ 53", where ?'a = int, simplified])
  then have "is_float64 (of_int (int (Suc k)) * 2 powi 500)"
    by (intro is_float64_dyadic) simp_all
  then have "is_float64 (of_nat (Suc k) * 2 powi 500)" by simp
  from rnd_abs_le [OF b this] obtain r where r: "rnd (a + x) = Fin r" "\<bar>r\<bar> \<le> of_nat (Suc k) * 2 powi 500"
    by blast
  have "Suc k + length xs < 2 ^ 53" using Cons.prems(3) by simp
  from Cons.IH [OF _ r(2) this] Cons.prems(1) r(1) show ?case by simp
qed

lemma calc_mean_bounded:
  assumes "\<forall>x\<in>set xs. \<bar>x\<bar> \<le> 2 powi 500" and "xs \<noteq> []" and "length xs < 2 ^ 53"
  shows "\<exists>m. calc_mean (map Fin xs) (int (length xs)) = Inr (Fin m) \<and> \<bar>m\<bar> \<le> 2 powi 500"
proof -
  define n where "n = length xs"
  have n0: "0 < n" using assms(2) by (simp add: n_def)
  from foldl_fadd_bounded [OF assms(1), of 0 0] assms(3)
  obtain s where s: "py_sum (map Fin xs) = Fin s" "\<bar>s\<bar> \<le> of_nat n * 2 powi 500"
    by (auto simp: py_sum_def n_def)
  have "int n < 2 ^ 53" using assms(3) by (simp add: n_def of_nat_less_iff [of _ "2 ^ 53", where ?'a = int, simplified])
  then have fi: "float_of_int (int n) = Inr (Fin (of_nat n))"
    using float_of_int_small [of "int n"] by simp
  have "\<bar>s / of_nat n\<bar> \<le> 2 powi 500" using s(2) n0 by (simp add: field_simps)
  moreover have "is_float64 (2 powi 500)" using is_float64_dyadic [of 1 500] by simp
  ultimately obtain m where m: "rnd (s / of_nat n) = Fin m" "\<bar>m\<bar> \<le> 2 powi 500"
    using rnd_abs_le by blast
  show ?thesis using n0 m by (simp add: calc_mean_def n_def [symmetric] fi s(1))
qed

lemma deviation_square_bounded:
  assumes "\<bar>x\<bar> \<le> 2 powi 500" and "\<bar>m\<bar> \<le> 2 powi 500"
  shows "\<exists>q. py_pow2 (fsub (Fin x) (Fin m)) = Inr (Fin q)"
proof -
  have "\<bar>x - m\<bar> \<le> 2 * 2 powi 500" using assms by linarith
  also have "2 * (2::real) powi 500 = 2 powi 501" using p2_add [of 1 500] by simp
  finally have "\<bar>x - m\<bar> \<le> 2 powi 501" .
  moreover have "is_float64 (2 powi 501)" using is_float64_dyadic [of 1 501] by simp
  ultimately obtain d where d: "rnd (x - m) = Fin d" "\<bar>d\<bar> \<le> 2 powi 501"
    using rnd_abs_le by blast
  have "\<bar>d * d\<bar> = \<bar>d\<bar> * \<bar>d\<bar>" by (simp add: abs_mult)
  also have "\<dots> \<le> 2 powi 501 * 2 powi 501" using d(2) by (intro mult_mono) simp_all
  also have "\<dots> = (2::real) powi 1002" using p2_add [of 501 501] by simp
  finally have "\<bar>d * d\<bar> \<le> 2 powi 1002" .
  moreover have "is_float64 (2 powi 1002)" using is_float64_dyadic [of "2 ^ 31" 971] by simp
  ultimately obtain q where "rnd (d * d) = Fin q" using rnd_abs_le by blast
  then show ?thesis by (simp add: fsub_def d(1))
qed


text \<open>
  Claim C2, as the code has it. An empty request is answered with the record of zeros.
  On finite values the only error \<open>analyze_data\<close> can raise is \<open>OverflowError\<close>; with
  fewer than \<open>2 ^ 53\<close> points the mean is always computed, and a record is returned
  exactly when no squared deviation \<open>(x - mean) ** 2\<close> overflows. In particular a record
  is returned whenever all values lie between \<open>- 2 ^ 500\<close> and \<open>2 ^ 500\<close>.
\<close>

theorem analyze_data_failures:
  "analyze_data [] = Inr \<lparr>mean = Fin 0, median = Fin 0, std_dev = Fin 0,
                          min_val = Fin 0, max_val = Fin 0, count_val = 0\<rparr> \<and>
   (finite_input data \<longrightarrow>
      (\<forall>e. analyze_data data = Inl e \<longrightarrow> e = OverflowError) \<and>
      (data \<noteq> [] \<and> int (length data) < 2 ^ 53 \<longrightarrow>
         (\<exists>m. calc_mean (map value data) (int (length data)) = Inr m \<and>
              ((\<exists>r. analyze_data data = Inr r) \<longleftrightarrow>
               (\<forall>x\<in>set (map value data). py_pow2 (fsub x m) \<noteq> Inl OverflowError)))) \<and>
      (int (length data) < 2 ^ 53 \<and>
       (\<forall>p\<in>set data. py_le (Fin (- (2 ^ 500))) (value p) \<and> py_le (value p) (Fin (2 ^ 500))) \<longrightarrow>
         (\<exists>r. analyze_data data = Inr r)))"
proof (intro conjI impI allI)
  show "analyze_data [] = Inr \<lparr>mean = Fin 0, median = Fin 0, std_dev = Fin 0,
                          min_val = Fin 0, max_val = Fin 0, count_val = 0\<rparr>"
    by (rule analyze_data_empty)
next
  fix e assume "finite_input data" "analyze_data data = Inl e"
  then show "e = OverflowError" by (rule analyze_data_error)
next
  assume fin: "finite_input data" and a: "data \<noteq> [] \<and> int (length data) < 2 ^ 53"
  have n1: "1 \<le> int (length data)" using a by (cases data) simp_all
  from calc_mean_small [OF finite_input_list_all [OF fin] n1] a
  obtain m where m: "calc_mean (map value data) (int (length data)) = Inr m" by auto
  from analyze_data_returns_iff [OF fin _ _ m] a m
  show "\<exists>m. calc_mean (map value data) (int (length data)) = Inr m \<and>
              ((\<exists>r. analyze_data data = Inr r) \<longleftrightarrow>
               (\<forall>x\<in>set (map value data). py_pow2 (fsub x m) \<noteq> Inl OverflowError))"
    by blast
next
  assume fin: "finite_input data"
    and a: "int (length data) < 2 ^ 53 \<and>
       (\<forall>p\<in>set data. py_le (Fin (- (2 ^ 500))) (value p) \<and> py_le (value p) (Fin (2 ^ 500)))"
  show "\<exists>r. analyze_data data = Inr r"
  proof (cases "data = []")
    case True then show ?thesis by (simp add: analyze_data_empty)
  next
    case False
    define xs where "xs = map fin_val (map value data)"
    have vs: "map value data = map Fin xs"
      unfolding xs_def by (rule finite_input_values [OF fin])
    have pp: "(2::real) ^ 500 = 2 powi 500" by simp
    have b: "\<forall>x\<in>set xs. \<bar>x\<bar> \<le> 2 powi 500"
    proof
      fix x assume "x \<in> set xs"
      then have "Fin x \<in> set (map value data)" unfolding vs by simp
      then obtain p where "p \<in> set data" "value p = Fin x" by auto
      with a have "- (2 ^ 500) \<le> x \<and> x \<le> 2 ^ 500" by (metis py_le_Fin)
      then have "- (2 powi 500) \<le> x" "x \<le> 2 powi 500" unfolding pp by blast+
      then show "\<bar>x\<bar> \<le> 2 powi 500" by (intro abs_leI) linarith+
    qed
    have len: "length xs = length data" by (simp add: xs_def)
    have xne: "xs \<noteq> []" using False by (simp add: xs_def)
    have l53: "length xs < 2 ^ 53"
      using a by (simp add: len of_nat_less_iff [of _ "2 ^ 53", where ?'a = int, simplified])
    from calc_mean_bounded [OF b xne l53] obtain m
      where m: "calc_mean (map value data) (int (length data)) = Inr (Fin m)" "\<bar>m\<bar> \<le> 2 powi 500"
      by (auto simp: vs len)
    have "\<forall>v\<in>set (map value data). py_pow2 (fsub v (Fin m)) \<noteq> Inl OverflowError"
    proof
      fix v assume "v \<in> set (map value data)"
      then obtain x where x: "v = Fin x" "x \<in> set xs" unfolding vs by auto
      from deviation_square_bounded [OF b [rule_format, OF x(2)] m(2)]
      show "py_pow2 (fsub v (Fin m)) \<noteq> Inl OverflowError" unfolding x(1) by auto
    qed
    with analyze_data_returns_iff [OF fin False _ m(1)] a show ?thesis by blast
  qed
qed

theorem analyze_data_failures_witness:
  "finite_input four_points \<and> four_points \<noteq> [] \<and> int (length four_points) < 2 ^ 53 \<and>
   list_all (\<lambda>p. py_le (Fin (- (2 ^ 500))) (value p) \<and> py_le (value p) (Fin (2 ^ 500))) four_points \<and>
   (\<exists>r. analyze_data four_points = Inr r) \<and>
   (\<exists>m. calc_mean (map value four_points) (int (length four_points)) = Inr m \<and>
        list_all (\<lambda>x. py_pow2 (fsub x m) \<noteq> Inl OverflowError) (map value four_points))"
proof -
  have h1: "int (length four_points) < 2 ^ 53" by simp
  have h2: "\<forall>p\<in>set four_points. py_le (Fin (- (2 ^ 500))) (value p) \<and> py_le (value p) (Fin (2 ^ 500))"
    by simp
  have h3: "four_points \<noteq> []" by simp
  from analyze_data_failures [of four_points] four_points_finite h1 h2 h3
  have "\<exists>r. analyze_data four_points = Inr r"
    and "\<exists>m. calc_mean (map value four_points) (int (length four_points)) = Inr m \<and>
            ((\<exists>r. analyze_data four_points = Inr r) \<longleftrightarrow>
             (\<forall>x\<in>set (map value four_points). py_pow2 (fsub x m) \<noteq> Inl OverflowError))"
    by blast+
  then show ?thesis using four_points_finite h1 h2 h3 unfolding list_all_iff by blast
qed

section \<open>The order of the input\<close>

lemma rhe_tie: "x = of_int f + 1 / 2 \<Longrightarrow> rhe x = (if even f then f else f + 1)"
proof -
  assume x: "x = of_int f + 1 / 2"
  then have "\<lfloor>x\<rfloor> = f" by (intro floor_unique) simp_all
  then show ?thesis using x by (simp add: rhe_unfold)
qed

lemma rnd_tie:
  assumes "x \<noteq> 0" and "- 1074 \<le> e" and "\<bar>x\<bar> < 2 powi (e + 53)"
    and "e = - 1074 \<or> 2 powi (e + 52) \<le> \<bar>x\<bar>"
    and "x / 2 powi e = of_int f + 1 / 2"
    and "\<bar>of_int (if even f then f else f + 1) * 2 powi e\<bar> < (2::real) ^ 1024"
  shows "rnd x = Fin (of_int (if even f then f else f + 1) * 2 powi e)"
proof -
  have "expo x = e" using assms(1-4) by (rule expo_eqI)
  moreover have "rhe (x / 2 powi e) = (if even f then f else f + 1)" using assms(5) by (rule rhe_tie)
  ultimately have "round_to_grid x = of_int (if even f then f else f + 1) * 2 powi e"
    by (simp only: round_to_grid_def)
  then show ?thesis using assms(6) by (simp only: rnd_Fin_iff)
qed

lemma cancel_a_rounding:
  "rnd 1329227995784915872903807060280344576 = Fin 1329227995784915872903807060280344576"
  "rnd 1152921504606846976 = Fin 1152921504606846976"
  "rnd 1 = Fin 1"
  "rnd (- 1152921504606846976) = Fin (- 1152921504606846976)"
  "rnd (- 1329227995784915872903807060280344576) = Fin (- 1329227995784915872903807060280344576)"
  "rnd 1329227995784915874056728564887191552 = Fin 1329227995784915872903807060280344576"
  "rnd 1329227995784915872903807060280344577 = Fin 1329227995784915872903807060280344576"
  "rnd 1329227995784915871750885555673497600 = Fin 1329227995784915872903807060280344576"
  "rnd 5 = Fin 5"
  "rnd 1766847064778384329583297500742918515827483896875618958121606201292619776 = Fin 1766847064778384329583297500742918515827483896875618958121606201292619776"
  "rnd 1766847064778384329583297500742918517156711892660534831025413261572964352 = Fin 1766847064778384329583297500742918515827483896875618958121606201292619776"
  "rnd 1766847064778384329583297500742918515827483896875618958121606201292619777 = Fin 1766847064778384329583297500742918515827483896875618958121606201292619776"
  "rnd 3533694129556768659166595001485837031654967793751237916243212402585239552 = Fin 3533694129556768659166595001485837031654967793751237916243212402585239552"
  "rnd (3533694129556768659166595001485837031654967793751237916243212402585239552 / 5) = Fin 706738825911353771065204846463922180304677453798162683888364008417263616"
  "rhe 0 = 0"
  "rhe 100 = 100"
  "rhe 84067759926820565157892489279333990400 = 84067759926820565157892489279333990400"
  "rnd 840677599268205651578924892793339904 = Fin 840677599268205651578924892793339904"
  using rnd_exact [of 1 120]
    rnd_exact [of 1 60]
    rnd_exact [of 1 0]
    rnd_exact [of "- 1" 60]
    rnd_exact [of "- 1" 120]
    rnd_near [of "1329227995784915874056728564887191552" 68 4503599627370496]
    rnd_near [of "1329227995784915872903807060280344577" 68 4503599627370496]
    rnd_near [of "1329227995784915871750885555673497600" 67 9007199254740992]
    rnd_exact [of 5 0]
    rnd_exact [of 1 240]
    rnd_near [of "1766847064778384329583297500742918517156711892660534831025413261572964352" 188 4503599627370496]
    rnd_near [of "1766847064778384329583297500742918515827483896875618958121606201292619777" 188 4503599627370496]
    rnd_exact [of 1 241]
    rnd_near [of "3533694129556768659166595001485837031654967793751237916243212402585239552 / 5" 186 7205759403792794]
    rhe_near [of "0" 0]
    rhe_near [of "100" 100]
    rhe_near [of "84067759926820565157892489279333990400" 84067759926820565157892489279333990400]
    rnd_exact [of 5696652996790543 67]
  by simp_all

lemma cancel_a_aux1: "sqrt_rnd 706738825911353771065204846463922180304677453798162683888364008417263616 = Fin 840677599268205651578924892793339904"
  by code_simp

lemma cancel_b_rounding:
  "rnd 1329227995784915872903807060280344576 = Fin 1329227995784915872903807060280344576"
  "rnd (- 1329227995784915872903807060280344576) = Fin (- 1329227995784915872903807060280344576)"
  "rnd 1152921504606846976 = Fin 1152921504606846976"
  "rnd (- 1152921504606846976) = Fin (- 1152921504606846976)"
  "rnd 1 = Fin 1"
  "rnd 5 = Fin 5"
  "rnd (1 / 5) = Fin (3602879701896397 / 18014398509481984)"
  "rnd (23945242826029513411849172299223580990439919082222387 / 18014398509481984) = Fin 1329227995784915872903807060280344576"
  "rnd 1766847064778384329583297500742918515827483896875618958121606201292619776 = Fin 1766847064778384329583297500742918515827483896875618958121606201292619776"
  "rnd (- (23945242826029513411849172299223580997645678486015181 / 18014398509481984)) = Fin (- 1329227995784915872903807060280344576)"
  "rnd 3533694129556768659166595001485837031654967793751237916243212402585239552 = Fin 3533694129556768659166595001485837031654967793751237916243212402585239552"
  "rnd (20769187434139310510519105614983987 / 18014398509481984) = Fin 1152921504606846976"
  "rnd 3533694129556768659166595001485837032984195789536153789147019462865584128 = Fin 3533694129556768659166595001485837031654967793751237916243212402585239552"
  "rnd (- (20769187434139310517724865018776781 / 18014398509481984)) = Fin (- 1152921504606846976)"
  "rnd (14411518807585587 / 18014398509481984) = Fin (3602879701896397 / 4503599627370496)"
  "rnd (12980742146337070512478121581609 / 20282409603651670423947251286016) = Fin (1441151880758559 / 2251799813685248)"
  "rnd (7957171782556586274486115970349133441607298412757563479047423630290551953641685889287455 / 2251799813685248) = Fin 3533694129556768659166595001485837031654967793751237916243212402585239552"
  "rnd (3533694129556768659166595001485837031654967793751237916243212402585239552 / 5) = Fin 706738825911353771065204846463922180304677453798162683888364008417263616"
  "rhe (90071992547409925 / 4503599627370496) = 20"
  "rhe 100 = 100"
  "rhe 84067759926820565157892489279333990400 = 84067759926820565157892489279333990400"
  "rnd 840677599268205651578924892793339904 = Fin 840677599268205651578924892793339904"
  using rnd_exact [of 1 120]
    rnd_exact [of "- 1" 120]
    rnd_exact [of 1 60]
    rnd_exact [of "- 1" 60]
    rnd_exact [of 1 0]
    rnd_exact [of 5 0]
    rnd_near [of "1 / 5" "- 55" 7205759403792794]
    rnd_near [of "23945242826029513411849172299223580990439919082222387 / 18014398509481984" 67 9007199254740992]
    rnd_exact [of 1 240]
    rnd_near [of "- (23945242826029513411849172299223580997645678486015181 / 18014398509481984)" 68 "- 4503599627370496"]
    rnd_exact [of 1 241]
    rnd_near [of "20769187434139310510519105614983987 / 18014398509481984" 7 9007199254740992]
    rnd_near [of "3533694129556768659166595001485837032984195789536153789147019462865584128" 189 4503599627370496]
    rnd_near [of "- (20769187434139310517724865018776781 / 18014398509481984)" 8 "- 4503599627370496"]
    rnd_tie [of "14411518807585587 / 18014398509481984" "- 53" 7205759403792793]
    rnd_near [of "12980742146337070512478121581609 / 20282409603651670423947251286016" "- 53" 5764607523034236]
    rnd_near [of "7957171782556586274486115970349133441607298412757563479047423630290551953641685889287455 / 2251799813685248" 189 4503599627370496]
    rnd_near [of "3533694129556768659166595001485837031654967793751237916243212402585239552 / 5" 186 7205759403792794]
    rhe_near [of "90071992547409925 / 4503599627370496" 20]
    rhe_near [of "100" 100]
    rhe_near [of "84067759926820565157892489279333990400" 84067759926820565157892489279333990400]
    rnd_exact [of 5696652996790543 67]
  by simp_all

lemma cancel_b_aux1: "sqrt_rnd 706738825911353771065204846463922180304677453798162683888364008417263616 = Fin 840677599268205651578924892793339904"
  by code_simp

lemma analyze_data_cancel_a:
  "analyze_data cancel_points_a =
     Inr cancel_result_a"
  by (simp add: analyze_data_def calc_mean_def calc_median_def calc_variance_def py_sum_def bind_res_def float_of_int_def py_getitem_def fsub_def py_sorted_def
      cancel_a_rounding cancel_a_aux1)

lemma analyze_data_cancel_b:
  "analyze_data cancel_points_b =
     Inr cancel_result_b"
  by (simp add: analyze_data_def calc_mean_def calc_median_def calc_variance_def py_sum_def bind_res_def float_of_int_def py_getitem_def fsub_def py_sorted_def
      cancel_b_rounding cancel_b_aux1)


lemma cancel_points_finite: "finite_input cancel_points_a" "finite_input cancel_points_b"
  by (simp_all add: finite_input_def finite_float_def is_float64_def cancel_a_rounding)

text \<open>
  Claim C6 fails on these two orders of the same five points: both calls return, and
  the means differ (\<open>0.0\<close> against \<open>0.2\<close>).
\<close>

theorem analyze_data_order_matters:
  "mset cancel_points_a = mset cancel_points_b \<and>
   finite_input cancel_points_a \<and> finite_input cancel_points_b \<and>
   analyze_data cancel_points_a = Inr cancel_result_a \<and>
   analyze_data cancel_points_b = Inr cancel_result_b \<and>
   mean cancel_result_a \<noteq> mean cancel_result_b \<and>
   rnd (2 / 10) = mean cancel_result_b \<and>
   analyze_data cancel_points_a \<noteq> analyze_data cancel_points_b"
proof -
  have "mset cancel_points_a = mset cancel_points_b" by (simp add: add_mset_commute)
  moreover have "rnd (2 / 10) = mean cancel_result_b"
    using cancel_b_rounding by simp
  moreover have "mean cancel_result_a \<noteq> mean cancel_result_b" by simp
  moreover have "Inr cancel_result_a \<noteq> (Inr cancel_result_b :: error + AnalysisResult)" by simp
  ultimately show ?thesis
    unfolding analyze_data_cancel_a analyze_data_cancel_b
    using cancel_points_finite by blast
qed

text \<open>
  Claim C6, as the code has it: when the same finite points are given in two orders and
  both calls return, the results agree on \<open>count\<close>, \<open>min\<close>, \<open>max\<close> and \<open>median\<close>. The mean
  and the standard deviation are float sums taken in the order of the input.
\<close>

theorem analyze_data_permutation:
  assumes "mset d1 = mset d2" and "finite_input d1"
    and "analyze_data d1 = Inr r1" and "analyze_data d2 = Inr r2"
  shows "count_val r1 = count_val r2 \<and> min_val r1 = min_val r2 \<and>
         max_val r1 = max_val r2 \<and> median r1 = median r2"
proof (cases "d1 = []")
  case True
  then have "d2 = []" using assms(1) by simp
  then show ?thesis using True assms(3,4) by (simp add: analyze_data_empty)
next
  case False
  then have ne2: "d2 \<noteq> []" using assms(1) by auto
  have "set d1 = set d2" using assms(1) by (metis set_mset_mset)
  then have fin2: "finite_input d2" using assms(2) by (simp add: finite_input_def list_all_iff)
  define xs1 where "xs1 = map fin_val (map value d1)"
  define xs2 where "xs2 = map fin_val (map value d2)"
  have v1: "map value d1 = map Fin xs1" unfolding xs1_def by (rule finite_input_values [OF assms(2)])
  have v2: "map value d2 = map Fin xs2" unfolding xs2_def by (rule finite_input_values [OF fin2])
  have "mset xs1 = image_mset (\<lambda>p. fin_val (value p)) (mset d1)" by (simp add: xs1_def comp_def)
  also have "\<dots> = mset xs2" unfolding assms(1) by (simp add: xs2_def comp_def)
  finally have ms: "mset xs1 = mset xs2" .
  then have st: "set xs1 = set xs2" by (metis set_mset_mset)
  have srt: "sort xs1 = sort xs2" using ms by (metis sorted_list_of_multiset_mset)
  have len: "length d1 = length d2" using assms(1) by (metis size_mset)
  have x1: "xs1 \<noteq> []" "xs2 \<noteq> []" using False ne2 by (simp_all add: xs1_def xs2_def)
  from analyze_data_Inr [OF False assms(3)] obtain med1 where a1:
    "calc_median (py_sorted (map value d1)) (int (length d1)) = Inr med1"
    "py_round2 med1 = Inr (median r1)"
    "py_min (map value d1) = Inr (min_val r1)"
    "py_max (map value d1) = Inr (max_val r1)"
    "count_val r1 = int (length d1)" by blast
  from analyze_data_Inr [OF ne2 assms(4)] obtain med2 where a2:
    "calc_median (py_sorted (map value d2)) (int (length d2)) = Inr med2"
    "py_round2 med2 = Inr (median r2)"
    "py_min (map value d2) = Inr (min_val r2)"
    "py_max (map value d2) = Inr (max_val r2)"
    "count_val r2 = int (length d2)" by blast
  have "py_sorted (map value d1) = py_sorted (map value d2)"
    unfolding v1 v2 py_sorted_Fin srt ..
  then have "med1 = med2" using a1(1) a2(1) len by simp
  then have "median r1 = median r2" using a1(2) a2(2) by simp
  moreover have "min_val r1 = min_val r2"
    using a1(3) a2(3) unfolding v1 v2 py_min_Fin [OF x1(1)] py_min_Fin [OF x1(2)] st by simp
  moreover have "max_val r1 = max_val r2"
    using a1(4) a2(4) unfolding v1 v2 py_max_Fin [OF x1(1)] py_max_Fin [OF x1(2)] st by simp
  ultimately show ?thesis using a1(5) a2(5) len by simp
qed

theorem analyze_data_permutation_witness:
  "mset cancel_points_a = mset cancel_points_b \<and> finite_input cancel_points_a \<and>
   (\<exists>r1 r2. analyze_data cancel_points_a = Inr r1 \<and> analyze_data cancel_points_b = Inr r2 \<and>
      count_val r1 = count_val r2 \<and> min_val r1 = min_val r2 \<and>
      max_val r1 = max_val r2 \<and> median r1 = median r2)"
proof -
  have h1: "mset cancel_points_a = mset cancel_points_b" by (simp add: add_mset_commute)
  from analyze_data_permutation [OF h1 cancel_points_finite(1) analyze_data_cancel_a analyze_data_cancel_b]
    h1 cancel_points_finite(1) analyze_data_cancel_a analyze_data_cancel_b
  show ?thesis by blast
qed

section \<open>Mean and median against the extremes\<close>

lemma is_float64_double:
  assumes "is_float64 x"
  shows "round_to_grid (2 * x) = 2 * x"
proof (cases "x = 0")
  case True then show ?thesis by simp
next
  case False
  define e where "e = expo x"
  define m where "m = rhe (x / 2 powi e)"
  have x: "x = of_int m * 2 powi e"
    using assms by (simp add: is_float64_iff round_to_grid_def e_def m_def)
  have e: "- 1074 \<le> e" unfolding e_def by (rule expo_ge)
  have "\<bar>x\<bar> < 2 powi (e + 53)" unfolding e_def by (rule expo_upper [OF False])
  then have "\<bar>of_int m\<bar> * 2 powi e < 2 powi 53 * (2::real) powi e"
    by (simp add: x abs_mult p2_add mult.commute)
  then have "\<bar>real_of_int m\<bar> < 2 powi 53" by simp
  then have "\<bar>real_of_int m\<bar> < of_int (2 ^ 53)" by simp
  then have m53: "\<bar>m\<bar> < 2 ^ 53" by (simp only: of_int_abs [symmetric] of_int_less_iff)
  have "2 * x = of_int m * 2 powi (e + 1)" by (simp add: x p2_add)
  moreover have "round_to_grid (of_int m * 2 powi (e + 1)) = of_int m * 2 powi (e + 1)"
    using m53 e by (intro round_to_grid_exact) simp_all
  ultimately show ?thesis by simp
qed

lemma midpoint_between:
  assumes "is_float64 a" and "is_float64 b" and "a \<le> b"
    and "py_truediv (fadd (Fin a) (Fin b)) (Fin 2) = Inr (Fin c)"
  shows "a \<le> c \<and> c \<le> b"
proof -
  from assms(4) obtain s where s: "rnd (a + b) = Fin s" and c: "rnd (s / 2) = Fin c"
    by (cases "rnd (a + b)") (auto split: if_splits)
  have "round_to_grid (2 * a) \<le> round_to_grid (a + b)" "round_to_grid (a + b) \<le> round_to_grid (2 * b)"
    using assms(3) by (intro round_to_grid_mono; simp)+
  then have "2 * a \<le> s" "s \<le> 2 * b"
    using s by (simp_all add: is_float64_double [OF assms(1)] is_float64_double [OF assms(2)] rnd_Fin_iff)
  then have "a \<le> s / 2" "s / 2 \<le> b" by simp_all
  from rnd_between [OF this assms(1,2)] c show ?thesis by simp
qed

lemma py_round2_mono:
  assumes "x \<le> y" and "py_round2 (Fin x) = Inr (Fin a)" and "py_round2 (Fin y) = Inr (Fin b)"
  shows "a \<le> b"
proof -
  from assms(2,3) have a: "rnd (of_int (rhe (x * 100)) / 100) = Fin a"
    and b: "rnd (of_int (rhe (y * 100)) / 100) = Fin b"
    by (auto split: pyfloat.splits)
  have "rhe (x * 100) \<le> rhe (y * 100)" using assms(1) by (intro rhe_mono) simp
  then have "real_of_int (rhe (x * 100)) / 100 \<le> of_int (rhe (y * 100)) / 100" by simp
  then show ?thesis using a b by (rule rnd_mono)
qed


lemma sorted_median_between:
  assumes "xs \<noteq> []" and "\<forall>x\<in>set xs. is_float64 x"
    and "spec_median (map Fin (sort xs)) = Inr (Fin c)"
  shows "Min (set xs) \<le> c \<and> c \<le> Max (set xs)"
proof -
  define ys where "ys = sort xs"
  define n where "n = length ys"
  have st: "set ys = set xs" and so: "sorted ys" and n0: "0 < n"
    using assms(1) by (simp_all add: ys_def n_def)
  have a3: "spec_median (map Fin ys) = Inr (Fin c)" using assms(3) by (simp only: ys_def)
  have mem: "Min (set xs) \<le> ys ! i \<and> ys ! i \<le> Max (set xs) \<and> is_float64 (ys ! i)" if "i < n" for i
  proof -
    have "ys ! i \<in> set xs" using that st by (metis n_def nth_mem)
    then show ?thesis using assms(2) by simp
  qed
  show ?thesis
  proof (cases "even n")
    case True
    then have n2: "2 \<le> n" using n0 by presburger
    define i where "i = n div 2 - 1"
    define j where "j = n div 2"
    have ij: "i \<le> j" "i < n" "j < n" using n2 by (simp_all add: i_def j_def)
    have le: "ys ! i \<le> ys ! j" using so ij by (simp add: sorted_nth_mono n_def)
    have nth: "map Fin ys ! i = Fin (ys ! i)" "map Fin ys ! j = Fin (ys ! j)"
      using ij by (simp_all add: n_def)
    have "spec_median (map Fin ys) = py_truediv (fadd (map Fin ys ! i) (map Fin ys ! j)) (Fin 2)"
      unfolding spec_median_def Let_def length_map n_def [symmetric] i_def j_def
      using True by (simp del: py_truediv.simps fadd.simps)
    then have "py_truediv (fadd (Fin (ys ! i)) (Fin (ys ! j))) (Fin 2) = Inr (Fin c)"
      using a3 by (simp only: nth)
    from midpoint_between [OF _ _ le this] mem [OF ij(2)] mem [OF ij(3)]
    show ?thesis by linarith
  next
    case False
    have j: "n div 2 < n" using n0 by simp
    have "c = ys ! (n div 2)"
      using a3 False j by (simp add: spec_median_def Let_def n_def [symmetric])
    then show ?thesis using mem [OF j] by simp
  qed
qed

lemma sum_list_bounds:
  fixes xs :: "real list"
  assumes "\<forall>x\<in>set xs. a \<le> x \<and> x \<le> b"
  shows "a * of_nat (length xs) \<le> sum_list xs \<and> sum_list xs \<le> b * of_nat (length xs)"
  using assms by (induction xs) (auto simp: algebra_simps)

lemma exact_mean_between:
  assumes "xs \<noteq> []" and "\<forall>x\<in>set xs. is_float64 x" and "int (length xs) < 2 ^ 53"
    and "py_sum (map Fin xs) = Fin (sum_list xs)"
    and "calc_mean (map Fin xs) (int (length xs)) = Inr m"
  shows "\<exists>c. m = Fin c \<and> Min (set xs) \<le> c \<and> c \<le> Max (set xs)"
proof -
  define n where "n = length xs"
  have n0: "0 < n" using assms(1) by (simp add: n_def)
  have fi: "float_of_int (int n) = Inr (Fin (of_nat n))"
    using float_of_int_small [of "int n"] assms(3) by (simp add: n_def)
  have m: "m = rnd (sum_list xs / of_nat n)"
    using assms(5) n0 by (simp add: calc_mean_def n_def [symmetric] fi assms(4))
  have "\<forall>x\<in>set xs. Min (set xs) \<le> x \<and> x \<le> Max (set xs)" by simp
  from sum_list_bounds [OF this]
  have "Min (set xs) \<le> sum_list xs / of_nat n" "sum_list xs / of_nat n \<le> Max (set xs)"
    using n0 by (simp_all add: n_def [symmetric] field_simps)
  moreover have "is_float64 (Min (set xs))" "is_float64 (Max (set xs))"
    using assms(1,2) by (simp_all add: Min_in Max_in)
  ultimately show ?thesis unfolding m using rnd_between by blast
qed


lemma py_round2_Fin_Inr: "py_round2 (Fin x) = Inr v \<Longrightarrow> \<exists>y. v = Fin y"
  by (cases "rnd (of_int (rhe (x * 100)) / 100)") auto

lemma py_round2_Inr_Fin: "py_round2 v = Inr (Fin y) \<Longrightarrow> \<exists>x. v = Fin x"
  by (cases v) simp_all

text \<open>
  Claim C1, as the code has it. For a non-empty request with finite values that is
  answered, \<open>min <= max\<close>; a finite returned median lies between \<open>round(min, 2)\<close> and
  \<open>round(max, 2)\<close>; and so does the returned mean when the float sum of the values is
  their exact sum (and there are fewer than \<open>2 ^ 53\<close> of them). The extremes themselves
  are returned unrounded, so a rounded mean or median can fall just outside them.
\<close>

theorem rounded_between_rounded_extremes:
  assumes "data \<noteq> []" and "finite_input data" and "analyze_data data = Inr r"
  shows "py_le (min_val r) (max_val r) \<and>
   (\<exists>lo hi. py_round2 (min_val r) = Inr lo \<and> py_round2 (max_val r) = Inr hi \<and>
      ((\<exists>y. median r = Fin y) \<longrightarrow> py_le lo (median r) \<and> py_le (median r) hi) \<and>
      (int (length data) < 2 ^ 53 \<and>
       py_sum (map value data) = Fin (sum_list (map (\<lambda>p. fin_val (value p)) data)) \<longrightarrow>
         py_le lo (mean r) \<and> py_le (mean r) hi))"
proof -
  define xs where "xs = map fin_val (map value data)"
  have vs: "map value data = map Fin xs" unfolding xs_def by (rule finite_input_values [OF assms(2)])
  have xne: "xs \<noteq> []" using assms(1) by (simp add: xs_def)
  have len: "length data = length xs" by (simp add: xs_def)
  have fl: "\<forall>x\<in>set xs. is_float64 x"
  proof
    fix x assume "x \<in> set xs"
    then have "Fin x \<in> set (map value data)" unfolding vs by simp
    then have "finite_float (Fin x)"
      using finite_input_list_all [OF assms(2)] by (simp only: list_all_iff)
    then show "is_float64 x" by (simp add: finite_float_def)
  qed
  define a where "a = Min (set xs)"
  define b where "b = Max (set xs)"
  have ab: "a \<le> b" "is_float64 a" "is_float64 b"
    using xne fl by (simp_all add: a_def b_def Min_in Max_in)
  from analyze_data_Inr [OF assms(1,3)] obtain m med where c:
    "calc_mean (map Fin xs) (int (length xs)) = Inr m"
    "calc_median (py_sorted (map Fin xs)) (int (length xs)) = Inr med"
    "py_round2 m = Inr (mean r)" "py_round2 med = Inr (median r)"
    "py_min (map Fin xs) = Inr (min_val r)" "py_max (map Fin xs) = Inr (max_val r)"
    unfolding vs len by blast
  have mn: "min_val r = Fin a" and mx: "max_val r = Fin b"
    using c(5,6) by (simp_all add: py_min_Fin [OF xne] py_max_Fin [OF xne] a_def b_def)
  from py_round2_float [OF ab(2)] py_round2_float [OF ab(3)] obtain l h
    where lh: "py_round2 (Fin a) = Inr (Fin l)" "py_round2 (Fin b) = Inr (Fin h)" by blast
  have btw: "l \<le> y \<and> y \<le> h" if "a \<le> x" "x \<le> b" "py_round2 (Fin x) = Inr (Fin y)" for x y
    using py_round2_mono [OF that(1) lh(1) that(3)] py_round2_mono [OF that(2) that(3) lh(2)] by simp
  have med: "py_le (Fin l) (median r) \<and> py_le (median r) (Fin h)" if "\<exists>y. median r = Fin y"
  proof -
    from that obtain y where y: "median r = Fin y" ..
    with c(4) obtain x where x: "med = Fin x" using py_round2_Inr_Fin by metis
    have sne: "py_sorted (map Fin xs) \<noteq> []" using xne by (metis length_py_sorted length_0_conv length_map)
    have "spec_median (map Fin (sort xs)) = Inr (Fin x)"
      using calc_median_eq_spec [OF sne] c(2) by (simp add: py_sorted_Fin x)
    from sorted_median_between [OF xne fl this] have "a \<le> x" "x \<le> b" by (simp_all add: a_def b_def)
    from btw [OF this] c(4) show ?thesis by (simp add: x y del: py_round2.simps)
  qed
  have mean: "py_le (Fin l) (mean r) \<and> py_le (mean r) (Fin h)"
    if "int (length data) < 2 ^ 53 \<and>
       py_sum (map value data) = Fin (sum_list (map (\<lambda>p. fin_val (value p)) data))"
  proof -
    have sl: "sum_list (map (\<lambda>p. fin_val (value p)) data) = sum_list xs" by (simp add: xs_def comp_def)
    from that have "int (length xs) < 2 ^ 53" "py_sum (map Fin xs) = Fin (sum_list xs)"
      unfolding vs len sl by simp_all
    from exact_mean_between [OF xne fl this c(1)] obtain x where x: "m = Fin x" "a \<le> x" "x \<le> b"
      unfolding a_def b_def by blast
    from c(3) obtain y where y: "mean r = Fin y" unfolding x(1) using py_round2_Fin_Inr by metis
    from btw [OF x(2,3)] c(3) show ?thesis by (simp add: x(1) y del: py_round2.simps)
  qed
  show ?thesis unfolding mn mx using ab(1) lh med mean by (simp del: py_round2.simps)
qed

theorem rounded_between_rounded_extremes_witness:
  "four_points \<noteq> [] \<and> finite_input four_points \<and> analyze_data four_points = Inr four_result \<and>
   median four_result = Fin (5 / 2) \<and> int (length four_points) < 2 ^ 53 \<and>
   py_sum (map value four_points) = Fin (sum_list (map (\<lambda>p. fin_val (value p)) four_points)) \<and>
   py_le (min_val four_result) (max_val four_result) \<and>
   (\<exists>lo hi. py_round2 (min_val four_result) = Inr lo \<and> py_round2 (max_val four_result) = Inr hi \<and>
      py_le lo (median four_result) \<and> py_le (median four_result) hi \<and>
      py_le lo (mean four_result) \<and> py_le (mean four_result) hi)"
proof -
  have h1: "four_points \<noteq> []" by simp
  have h3: "analyze_data four_points = Inr four_result" by (rule analyze_data_four)
  have h4: "median four_result = Fin (5 / 2)" by simp
  have h5: "int (length four_points) < 2 ^ 53" by simp
  have h6: "py_sum (map value four_points) = Fin (sum_list (map (\<lambda>p. fin_val (value p)) four_points))"
    using rnd_exact [of 1 0] rnd_exact [of 3 0] rnd_exact [of 6 0] rnd_exact [of 10 0]
    by (simp add: py_sum_def)
  from rounded_between_rounded_extremes [OF h1 four_points_finite h3] h1 four_points_finite h3 h4 h5 h6
  show ?thesis by blast
qed

section \<open>The input is left unchanged\<close>

lemma lookup_append [simp]: "a < length s \<Longrightarrow> lookup (s @ t) a = lookup s a"
  by (simp add: lookup_def nth_append)

lemma lookup_new [simp]: "lookup (s @ ob # t) (length s) = Some ob"
  by (simp add: lookup_def)

lemma lookup_new2 [simp]: "lookup (s @ x # ob # t) (Suc (length s)) = Some ob"
  by (simp add: lookup_def nth_append)

lemma load_floats_new [simp]: "load_floats (s @ FloatList xs # t) (length s) = Inr xs"
  by (simp add: load_floats_def)

lemma load_floats_new2 [simp]: "load_floats (s @ x # FloatList xs # t) (Suc (length s)) = Inr xs"
  by (simp add: load_floats_def)

lemma sorted_st_new:
  "sorted_st (length s) (s @ [FloatList xs]) =
     (Inr (Suc (length s)), s @ [FloatList xs, FloatList (py_sorted xs)])"
  by (simp add: sorted_st_def alloc_def list_sort_def list_update_append)

lemma statistics_eq:
  assumes "load_floats s values = Inr vs" and "load_floats s sorted_values = Inr (py_sorted vs)"
    and "vs = map value points" and "points \<noteq> []"
  shows "statistics values sorted_values s = analyze_data points"
  using assms(3,4) by (simp add: statistics_def analyze_data_def assms(1,2) Let_def)

lemma load_point_append: "load_point s a = Inr p \<Longrightarrow> load_point (s @ t) a = Inr p"
  by (cases "a < length s") (simp_all add: load_point_def, simp add: lookup_def)

lemma collect_load_point_append:
  "collect (map (load_point s) refs) = Inr ps \<Longrightarrow> collect (map (load_point (s @ t)) refs) = Inr ps"
proof (induction refs arbitrary: ps)
  case Nil then show ?case by simp
next
  case (Cons a refs)
  from Cons.prems obtain p qs where p: "load_point s a = Inr p"
    and qs: "collect (map (load_point s) refs) = Inr qs" and ps: "ps = p # qs"
    by (auto simp: bind_res_Inr_iff)
  show ?case using load_point_append [OF p] Cons.IH [OF qs] by (simp add: ps)
qed

lemma load_points_append:
  assumes "load_points s a = Inr ps"
  shows "load_points (s @ t) a = Inr ps"
proof (cases "a < length s")
  case True
  then show ?thesis using assms
    by (auto simp: load_points_def split: option.splits obj.splits intro: collect_load_point_append)
next
  case False
  then show ?thesis using assms by (simp add: load_points_def lookup_def)
qed

lemma analyze_data_st_unfold:
  assumes "load_points s data = Inr points"
  shows "analyze_data_st data s =
     (analyze_data points,
      s @ FloatList (map value points) #
          (if points = [] then [] else [FloatList (py_sorted (map value points))]))"
proof (cases "points = []")
  case True
  then show ?thesis using assms by (simp add: analyze_data_st_def alloc_def analyze_data_empty)
next
  case False
  have "statistics (length s) (Suc (length s))
          (s @ [FloatList (map value points), FloatList (py_sorted (map value points))]) =
        analyze_data points"
    by (rule statistics_eq [OF _ _ refl False]) simp_all
  then show ?thesis using assms False
    by (simp add: analyze_data_st_def alloc_def sorted_st_new)
qed


text \<open>
  Claim C9. Whatever the call does, the store after it is the store before it followed
  by new objects, so every object that existed before the call is unchanged. When
  \<open>data\<close> is a list of points, the list read after the call is the same, the result is
  that of \<open>analyze_data\<close> on the points, and for a non-empty list exactly two objects are
  new: the list \<open>values\<close>, still in input order, and its sorted copy.
\<close>

theorem analyze_data_leaves_input:
  "(\<exists>new. snd (analyze_data_st data s) = s @ new) \<and>
   (\<forall>a<length s. lookup (snd (analyze_data_st data s)) a = lookup s a) \<and>
   (\<forall>points. load_points s data = Inr points \<longrightarrow>
      load_points (snd (analyze_data_st data s)) data = Inr points \<and>
      fst (analyze_data_st data s) = analyze_data points \<and>
      (points \<noteq> [] \<longrightarrow>
         snd (analyze_data_st data s) =
           s @ [FloatList (map value points), FloatList (py_sorted (map value points))]))"
proof -
  have ex: "\<exists>new. snd (analyze_data_st data s) = s @ new"
  proof (cases "load_points s data")
    case (Inl e)
    then show ?thesis by (simp add: analyze_data_st_def)
  next
    case (Inr points)
    show ?thesis unfolding analyze_data_st_unfold [OF Inr] by simp
  qed
  then have "\<forall>a<length s. lookup (snd (analyze_data_st data s)) a = lookup s a" by auto
  moreover have "load_points (snd (analyze_data_st data s)) data = Inr points \<and>
      fst (analyze_data_st data s) = analyze_data points \<and>
      (points \<noteq> [] \<longrightarrow>
         snd (analyze_data_st data s) =
           s @ [FloatList (map value points), FloatList (py_sorted (map value points))])"
    if "load_points s data = Inr points" for points
    unfolding analyze_data_st_unfold [OF that] using load_points_append [OF that] by simp
  ultimately show ?thesis using ex by blast
qed

theorem analyze_data_leaves_input_witness:
  "load_points cancel_store 5 = Inr cancel_points_b \<and> cancel_points_b \<noteq> [] \<and>
   lookup cancel_store 5 = Some (PointList [0, 1, 2, 3, 4]) \<and>
   lookup (snd (analyze_data_st 5 cancel_store)) 5 = Some (PointList [0, 1, 2, 3, 4]) \<and>
   load_points (snd (analyze_data_st 5 cancel_store)) 5 = Inr cancel_points_b \<and>
   fst (analyze_data_st 5 cancel_store) = Inr cancel_result_b \<and>
   snd (analyze_data_st 5 cancel_store) =
     cancel_store @ [FloatList (map value cancel_points_b),
                     FloatList [Fin (- (2 ^ 120)), Fin (- (2 ^ 60)), Fin 1, Fin (2 ^ 60), Fin (2 ^ 120)]]"
proof -
  have h1: "load_points cancel_store 5 = Inr cancel_points_b"
    by (simp add: load_points_def load_point_def lookup_def)
  have h2: "cancel_points_b \<noteq> []" by simp
  have h3: "lookup cancel_store 5 = Some (PointList [0, 1, 2, 3, 4])" by (simp add: lookup_def)
  have h4: "(5::nat) < length cancel_store" by simp
  have h5: "py_sorted (map value cancel_points_b) =
      [Fin (- (2 ^ 120)), Fin (- (2 ^ 60)), Fin 1, Fin (2 ^ 60), Fin (2 ^ 120)]"
    by (simp add: py_sorted_def)
  from analyze_data_leaves_input [of 5 cancel_store] h1 h2 h4
  have "lookup (snd (analyze_data_st 5 cancel_store)) 5 = lookup cancel_store 5"
    and "load_points (snd (analyze_data_st 5 cancel_store)) 5 = Inr cancel_points_b"
    and "fst (analyze_data_st 5 cancel_store) = analyze_data cancel_points_b"
    and "snd (analyze_data_st 5 cancel_store) =
           cancel_store @ [FloatList (map value cancel_points_b),
                           FloatList (py_sorted (map value cancel_points_b))]"
    by blast+
  then show ?thesis
    unfolding h5 analyze_data_cancel_b h3 using h1 h2 h3 by blast
qed

section \<open>The square root\<close>

lemma isqrt_correct:
  "0 \<le> n \<Longrightarrow> 0 \<le> isqrt n \<and> isqrt n * isqrt n \<le> n \<and> n < (isqrt n + 1) * (isqrt n + 1)"
proof (induction n rule: isqrt.induct)
  case (1 n)
  show ?case
  proof (cases "n < 4")
    case True
    then show ?thesis using "1.prems" by (simp add: isqrt.simps [of n])
  next
    case False
    define t where "t = isqrt (n div 4)"
    define u where "u = t * t"
    have "0 \<le> n div 4" using False by simp
    with "1.IH" False have ih: "0 \<le> t" "u \<le> n div 4" "n div 4 < (t + 1) * (t + 1)"
      by (simp_all add: t_def u_def)
    have d: "4 * (n div 4) \<le> n" "n < 4 * (n div 4) + 4" by presburger+
    have e1: "(t + 1) * (t + 1) = u + 2 * t + 1" by (simp add: u_def algebra_simps)
    have e2: "(2 * t) * (2 * t) = 4 * u" by (simp add: u_def)
    have e3: "(2 * t + 1) * (2 * t + 1) = 4 * u + 4 * t + 1" by (simp add: u_def algebra_simps)
    have e4: "(2 * t + 1 + 1) * (2 * t + 1 + 1) = 4 * u + 8 * t + 4" by (simp add: u_def algebra_simps)
    have ev: "isqrt n = (if (2 * t + 1) * (2 * t + 1) \<le> n then 2 * t + 1 else 2 * t)"
      using False by (simp add: isqrt.simps [of n] t_def Let_def)
    show ?thesis
    proof (cases "(2 * t + 1) * (2 * t + 1) \<le> n")
      case True
      then have i: "isqrt n = 2 * t + 1" by (simp add: ev)
      have "n < (2 * t + 1 + 1) * (2 * t + 1 + 1)" using ih d unfolding e1 e4 by linarith
      moreover have "0 \<le> 2 * t + 1" using ih(1) by linarith
      ultimately show ?thesis unfolding i using True by blast
    next
      case f: False
      then have i: "isqrt n = 2 * t" by (simp add: ev)
      have "2 * t * (2 * t) \<le> n" using ih d unfolding e1 e2 by linarith
      moreover have "n < (2 * t + 1) * (2 * t + 1)" using f by linarith
      moreover have "0 \<le> 2 * t" using ih(1) by linarith
      ultimately show ?thesis unfolding i by blast
    qed
  qed
qed

lemma rhe_gap:
  fixes r :: int and t :: nat
  assumes "1 \<le> t"
    and "of_int r / 2 ^ t < z1" and "z1 < (of_int r + 1) / 2 ^ t"
    and "of_int r / 2 ^ t < z2" and "z2 < (of_int r + 1) / 2 ^ t"
  shows "rhe z1 = rhe z2"
proof -
  define m where "m = rhe z1"
  define M :: int where "M = 2 ^ (t - 1)"
  have M: "(2::real) ^ t = 2 * of_int M" "0 < M"
    using assms(1) by (cases t) (simp_all add: M_def)
  have d: "\<bar>of_int m - z1\<bar> \<le> 1 / 2" unfolding m_def by (rule rhe_dist)
  have b: "of_int r < z * (2 * of_int M)" "z * (2 * of_int M) < of_int r + 1"
    if "of_int r / 2 ^ t < z" "z < (of_int r + 1) / 2 ^ t" for z :: real
    using that M by (simp_all add: field_simps)
  note b1 = b [OF assms(2,3)] and b2 = b [OF assms(4,5)]
  have Mr: "0 < real_of_int M" using M(2) by simp
  then have pos: "0 < 2 * real_of_int M" by simp
  have d1: "z1 \<le> of_int m + 1 / 2" "of_int m - 1 / 2 \<le> z1" using d by linarith+
  have "z1 * (2 * of_int M) \<le> (of_int m + 1 / 2) * (2 * of_int M)"
    using d1(1) Mr by (intro mult_right_mono) simp_all
  then have "of_int r < (of_int m + 1 / 2) * (2 * real_of_int M)" using b1(1) by linarith
  also have "\<dots> = of_int ((2 * m + 1) * M)" by (simp add: algebra_simps)
  finally have "r < (2 * m + 1) * M" by (simp only: of_int_less_iff)
  then have "r + 1 \<le> (2 * m + 1) * M" by simp
  then have "real_of_int (r + 1) \<le> of_int ((2 * m + 1) * M)" by (simp only: of_int_le_iff)
  then have "z2 * (2 * of_int M) < (of_int m + 1 / 2) * (2 * of_int M)"
    using b2(2) by (simp add: algebra_simps)
  then have u: "z2 < of_int m + 1 / 2" by (simp only: mult_less_cancel_right_pos [OF pos])
  have "(of_int m - 1 / 2) * (2 * of_int M) \<le> z1 * (2 * of_int M)"
    using d1(2) Mr by (intro mult_right_mono) simp_all
  then have "(of_int m - 1 / 2) * (2 * real_of_int M) < of_int (r + 1)" using b1(2) by simp
  moreover have "(of_int m - 1 / 2) * (2 * real_of_int M) = of_int ((2 * m - 1) * M)"
    by (simp add: algebra_simps)
  ultimately have "(2 * m - 1) * M < r + 1" by (simp only: of_int_less_iff)
  then have "(2 * m - 1) * M \<le> r" by simp
  then have "real_of_int ((2 * m - 1) * M) \<le> of_int r" by (simp only: of_int_le_iff)
  then have "(of_int m - 1 / 2) * (2 * of_int M) < z2 * (2 * of_int M)"
    using b2(1) by (simp add: algebra_simps)
  then have l: "of_int m - 1 / 2 < z2" by (simp only: mult_less_cancel_right_pos [OF pos])
  have "\<bar>z2 - of_int m\<bar> < 1 / 2" using u l by linarith
  then have "rhe z2 = m" by (rule rhe_near)
  then show ?thesis by (simp add: m_def)
qed


lemma round_to_grid_gap:
  fixes r :: int and s :: nat
  assumes "2 ^ 55 \<le> r"
    and "of_int r / 2 ^ s < x1" and "x1 < (of_int r + 1) / 2 ^ s"
    and "of_int r / 2 ^ s < x2" and "x2 < (of_int r + 1) / 2 ^ s"
  shows "round_to_grid x1 = round_to_grid x2"
proof -
  define lo :: real where "lo = of_int r / 2 ^ s"
  define k where "k = ilog2 lo"
  define e where "e = max (k - 52) (- 1074)"
  have r55: "(2::real) powi 55 \<le> of_int r"
  proof -
    have "real_of_int (2 ^ 55) \<le> of_int r" using assms(1) by (simp only: of_int_le_iff)
    then show ?thesis by simp
  qed
  then have r0: "0 < real_of_int r" by (rule less_le_trans [rotated]) simp
  then have lo0: "0 < lo" by (simp add: lo_def)
  have S: "(2::real) ^ s = 2 powi int s" by simp
  from ilog2_bounds [OF lo0] have kb: "2 powi k \<le> lo" "lo < 2 powi (k + 1)"
    by (simp_all add: k_def)
  have "of_int r < 2 powi (k + 1) * (2::real) ^ s" using kb(2) by (simp add: lo_def field_simps)
  then have ru: "of_int r < (2::real) powi (k + 1 + int s)" by (simp only: S p2_add)
  with r55 have "(2::real) powi 55 < 2 powi (k + 1 + int s)" by linarith
  then have ks: "55 < k + 1 + int s" by (simp only: p2_less_iff)
  define j where "j = nat (k + 1 + int s)"
  have j: "(2::real) powi (k + 1 + int s) = of_int (2 ^ j)"
    using ks by (simp add: j_def power_int_def)
  from ru have "r < 2 ^ j" unfolding j by (simp only: of_int_less_iff)
  then have "r + 1 \<le> 2 ^ j" by simp
  then have "real_of_int (r + 1) \<le> of_int (2 ^ j)" by (simp only: of_int_le_iff)
  then have "of_int r + 1 \<le> 2 powi (k + 1) * (2::real) ^ s"
    unfolding j [symmetric] by (simp only: S p2_add of_int_add of_int_1)
  then have hi: "(of_int r + 1) / 2 ^ s \<le> (2::real) powi (k + 1)" by (simp add: field_simps)
  define t where "t = nat (int s + e)"
  have te: "int t = int s + e" "1 \<le> t" using ks by (simp_all add: t_def e_def)
  have pe: "(2::real) powi e = 2 ^ t / 2 ^ s"
  proof -
    have "e = int t - int s" using te(1) by simp
    then show ?thesis by (simp only: p2_diff) simp
  qed
  have gap: "expo x = e \<and> of_int r / 2 ^ t < x / 2 powi e \<and> x / 2 powi e < (of_int r + 1) / 2 ^ t"
    if "of_int r / 2 ^ s < x" "x < (of_int r + 1) / 2 ^ s" for x
  proof -
    have "2 powi k \<le> x" "x < 2 powi (k + 1)" using that kb(1) hi by (simp_all add: lo_def)
    then have "ilog2 x = k" by (rule ilog2_unique)
    moreover have "0 < x" using that(1) lo0 by (simp add: lo_def)
    ultimately have "expo x = e" by (simp add: expo_def e_def)
    moreover have "of_int r < x * 2 ^ s" "x * 2 ^ s < of_int r + 1"
      using that by (simp_all add: field_simps)
    then have "of_int r / 2 ^ t < x * 2 ^ s / 2 ^ t" "x * 2 ^ s / 2 ^ t < (of_int r + 1) / 2 ^ t"
      by (simp_all add: divide_strict_right_mono)
    ultimately show ?thesis by (simp add: pe)
  qed
  from gap [OF assms(2,3)] gap [OF assms(4,5)]
  have "rhe (x1 / 2 powi e) = rhe (x2 / 2 powi e)" "expo x1 = e" "expo x2 = e"
    using rhe_gap [OF te(2), of r "x1 / 2 powi e" "x2 / 2 powi e"] by simp_all
  then show ?thesis by (simp add: round_to_grid_def)
qed

lemma rnd_gap:
  fixes r :: int and s :: nat
  assumes "2 ^ 55 \<le> r"
    and "of_int r / 2 ^ s < x1" and "x1 < (of_int r + 1) / 2 ^ s"
    and "of_int r / 2 ^ s < x2" and "x2 < (of_int r + 1) / 2 ^ s"
  shows "rnd x1 = rnd x2"
proof -
  have "(0::int) < 2 ^ 55" by simp
  then have "0 < r" using assms(1) by linarith
  then have "0 \<le> real_of_int r / 2 ^ s" by simp
  then have "0 < x1" "0 < x2" using assms(2,4) by linarith+
  then show ?thesis
    using round_to_grid_gap [OF assms] by (simp add: rnd_def)
qed


lemma sqrt_rnd_correct:
  assumes "0 < v"
  shows "sqrt_rnd v = rnd (sqrt v)"
proof -
  define k where "k = ilog2 v"
  define s where "s = nat (max 0 ((111 - k) div 2))"
  define V where "V = v * 4 ^ s"
  define a where "a = \<lfloor>V\<rfloor>"
  define r where "r = isqrt a"
  define q :: real where "q = (if r * r = a \<and> of_int a = V then of_int r else of_int r + 1 / 2)"
  have unfold: "sqrt_rnd v = rnd (q / 2 ^ s)"
    unfolding sqrt_rnd_def Let_def q_def r_def a_def V_def s_def k_def by (rule refl)
  have S0: "(0::real) < 2 ^ s" by simp
  have four: "(4::real) ^ s = 2 powi (2 * int s)"
  proof -
    have "(4::real) ^ s = (2 ^ 2) ^ s" by simp
    also have "\<dots> = 2 ^ (2 * s)" by (simp only: power_mult)
    also have "\<dots> = 2 powi int (2 * s)" by (simp only: power_int_of_nat)
    also have "int (2 * s) = 2 * int s" by simp
    finally show ?thesis .
  qed
  have "110 \<le> k + 2 * int s" unfolding s_def by (simp add: max_def) presburger
  then have "(2::real) powi 110 \<le> 2 powi (k + 2 * int s)" by (simp only: p2_le_iff)
  also have "\<dots> = 2 powi k * 4 ^ s" by (simp only: p2_add four)
  also have "\<dots> \<le> V" unfolding V_def k_def
    using ilog2_bounds(1) [OF assms] by (intro mult_right_mono) simp_all
  finally have V110: "2 powi 110 \<le> V" .
  then have "real_of_int (2 ^ 110) \<le> V" by simp
  then have a110: "2 ^ 110 \<le> a" unfolding a_def by (simp only: le_floor_iff)
  then have a0: "0 \<le> a" by (rule order_trans [rotated]) simp
  from isqrt_correct [OF a0] have rc: "0 \<le> r" "r * r \<le> a" "a < (r + 1) * (r + 1)"
    by (simp_all add: r_def)
  have r55: "2 ^ 55 \<le> r"
  proof (rule ccontr)
    assume "\<not> 2 ^ 55 \<le> r"
    then have "r + 1 \<le> 2 ^ 55" by simp
    then have "(r + 1) * (r + 1) \<le> 2 ^ 55 * 2 ^ 55" using rc(1) by (intro mult_mono) simp_all
    also have "\<dots> = (2::int) ^ 110" by simp
    finally show False using rc(3) a110 by linarith
  qed
  have aV: "of_int a \<le> V" "V < of_int a + 1" unfolding a_def by linarith+
  have lo: "(of_int r)\<^sup>2 \<le> V"
  proof -
    have "real_of_int (r * r) \<le> of_int a" using rc(2) by (simp only: of_int_le_iff)
    then show ?thesis using aV(1) by (simp add: power2_eq_square)
  qed
  have hi: "V < (of_int r + 1)\<^sup>2"
  proof -
    have "a + 1 \<le> (r + 1) * (r + 1)" using rc(3) by simp
    then have "real_of_int (a + 1) \<le> of_int ((r + 1) * (r + 1))" by (simp only: of_int_le_iff)
    then show ?thesis using aV(2) by (simp add: power2_eq_square)
  qed
  have r0: "0 \<le> real_of_int r" using rc(1) by simp
  have sq: "sqrt V = sqrt v * 2 ^ s"
  proof -
    have "sqrt ((4::real) ^ s) = 2 ^ s"
      by (rule real_sqrt_unique) (simp_all add: power2_eq_square power_mult_distrib [symmetric])
    then show ?thesis by (simp add: V_def real_sqrt_mult)
  qed
  have up: "sqrt V < of_int r + 1" using hi r0 by (intro real_less_lsqrt) simp_all
  show ?thesis
  proof (cases "r * r = a \<and> of_int a = V")
    case True
    then have "V = (of_int r)\<^sup>2" by (auto simp: power2_eq_square)
    then have "sqrt V = of_int r" using r0 by simp
    then have "sqrt v = of_int r / 2 ^ s" unfolding sq by (simp add: field_simps)
    then show ?thesis using True by (simp add: unfold q_def)
  next
    case False
    have "V \<noteq> (of_int r)\<^sup>2"
    proof
      assume e: "V = (of_int r)\<^sup>2"
      then have V': "V = of_int (r * r)" by (simp add: power2_eq_square)
      then have a1: "a = r * r" unfolding a_def by (simp only: floor_of_int)
      have a2: "real_of_int a = V" unfolding V' a1 ..
      have "r * r = a \<and> of_int a = V" by (intro conjI) (rule a1 [symmetric], rule a2)
      with False show False by (rule notE)
    qed
    with lo have "(of_int r)\<^sup>2 < V" by simp
    then have "of_int r < sqrt V" by (rule real_less_rsqrt)
    then have b: "of_int r / 2 ^ s < sqrt v" "sqrt v < (of_int r + 1) / 2 ^ s"
      using up unfolding sq by (simp_all add: field_simps)
    have qv: "q = of_int r + 1 / 2" using False by (simp add: q_def)
    have c: "of_int r / 2 ^ s < q / 2 ^ s" "q / 2 ^ s < (of_int r + 1) / 2 ^ s"
      unfolding qv by (simp_all add: divide_strict_right_mono)
    show ?thesis unfolding unfold by (rule rnd_gap [OF r55 c b])
  qed
qed

lemma py_pow_half_sqrt: "0 \<le> v \<Longrightarrow> py_pow_half (Fin v) = Inr (rnd (sqrt v))"
  using rnd_exact [of 1 0] by (simp add: sqrt_rnd_correct)

section \<open>The service on any platform, and on the reference platform\<close>

lemma analyze_data_on_Inr:
  assumes "data \<noteq> []" and "analyze_data_on plat data = Inr r"
  shows "\<exists>m med var sd.
     calc_mean_on plat (map value data) (int (length data)) = Inr m \<and>
     calc_median (py_sorted (map value data)) (int (length data)) = Inr med \<and>
     calc_variance_on plat (map value data) m (int (length data)) = Inr var \<and>
     py_pow_half_on plat var = Inr sd \<and>
     py_round2 m = Inr (mean r) \<and>
     py_round2 med = Inr (median r) \<and>
     py_round2 sd = Inr (std_dev r) \<and>
     py_min (map value data) = Inr (min_val r) \<and>
     py_max (map value data) = Inr (max_val r) \<and>
     count_val r = int (length data)"
  using assms by (auto simp: analyze_data_on_def Let_def bind_res_Inr_iff)

lemma py_pow2_on_reference: "py_pow2_on reference_platform v = py_pow2 v"
proof (cases v)
  case (Fin x)
  have one: "rnd 1 = Fin 1" using rnd_exact [of 1 0] by simp
  have "\<bar>x\<bar> * \<bar>x\<bar> = x * x" by (simp add: abs_mult_self_eq)
  moreover have "\<bar>x\<bar> = 1 \<Longrightarrow> x * x = 1" by (auto simp: abs_if split: if_splits)
  ultimately show ?thesis
    using Fin one by (cases "rnd (x * x)") (auto simp: reference_platform_def)
qed simp_all

lemma sqrt_rnd_finite:
  assumes "is_float64 v" and "0 < v"
  shows "\<exists>y. sqrt_rnd v = Fin y"
proof -
  have pp: "(2::real) ^ 1024 = (2 ^ 512)\<^sup>2" by simp
  have "\<bar>v\<bar> < 2 ^ 1024" using assms(1) by (simp only: is_float64_iff)
  then have "v < (2 ^ 512)\<^sup>2" using assms(2) unfolding pp by linarith
  then have "sqrt v < 2 ^ 512" by (intro real_less_lsqrt) simp_all
  moreover have "0 \<le> sqrt v" using assms(2) by simp
  moreover have "is_float64 0" "is_float64 (2 ^ 512)"
    using is_float64_dyadic [of 0 0] is_float64_dyadic [of 1 512] by simp_all
  ultimately obtain y where "rnd (sqrt v) = Fin y"
    using rnd_between [of 0 "sqrt v" "2 ^ 512"] by auto
  then show ?thesis by (simp add: sqrt_rnd_correct [OF assms(2)])
qed

lemma py_pow_half_on_reference:
  assumes "float_value v"
  shows "py_pow_half_on reference_platform v = py_pow_half v"
proof (cases v)
  case (Fin x)
  show ?thesis
  proof (cases "0 < x \<and> x \<noteq> 1")
    case True
    then obtain y where "sqrt_rnd x = Fin y"
      using sqrt_rnd_finite [of x] assms Fin by (auto simp: float_value_def)
    then show ?thesis using True Fin by (simp add: reference_platform_def)
  next
    case False
    then show ?thesis using Fin by auto
  qed
qed simp_all

lemma calc_mean_on_reference: "calc_mean_on reference_platform vs n = calc_mean vs n"
  by (simp add: calc_mean_on_def calc_mean_def reference_platform_def)


lemma plat_sum_reference [simp]: "plat_sum reference_platform = py_sum"
  by (simp add: reference_platform_def)

lemma calc_variance_on_reference:
  "calc_variance_on reference_platform vs m n = calc_variance vs m n"
  by (cases "collect (map (\<lambda>x. py_pow2 (fsub x m)) vs)")
     (simp_all add: calc_variance_on_def calc_variance_def sum_sq_dev_collect py_pow2_on_reference
        py_sum_def)

lemma calc_variance_float_value:
  assumes "calc_variance vs m n = Inr var"
  shows "float_value var"
proof -
  from assms obtain s c where "py_truediv s c = Inr var"
    unfolding calc_variance_def bind_res_Inr_iff by blast
  then show ?thesis by (rule float_value_py_truediv)
qed

lemma analyze_data_on_reference: "analyze_data_on reference_platform data = analyze_data data"
proof -
  have "bind_res (calc_variance vs m n) (\<lambda>var. bind_res (py_pow_half_on reference_platform var) f) =
        bind_res (calc_variance vs m n) (\<lambda>var. bind_res (py_pow_half var) f)" for vs m n
    and f :: "pyfloat \<Rightarrow> error + AnalysisResult"
    by (cases "calc_variance vs m n")
       (simp_all add: bind_res_def py_pow_half_on_reference calc_variance_float_value)
  then show ?thesis
    by (simp add: analyze_data_on_def analyze_data_def calc_mean_on_reference
        calc_variance_on_reference Let_def)
qed

section \<open>The reference platform is accurate\<close>















section \<open>The standard deviation and the rounding, on any platform\<close>


text \<open>
  Claim C5. On every platform, for a non-empty list of finite values, the mean, the
  median and the standard deviation returned are the computed ones rounded to two
  decimal places; the minimum and the maximum returned are values of the input
  themselves, below and above every value; and the count is the length of the input.
\<close>

theorem rounded_and_exact_fields:
  assumes "data \<noteq> []" and "finite_input data" and "analyze_data_on plat data = Inr r"
  shows "(\<exists>m med var sd.
            calc_mean_on plat (map value data) (int (length data)) = Inr m \<and>
            spec_median (py_sorted (map value data)) = Inr med \<and>
            calc_variance_on plat (map value data) m (int (length data)) = Inr var \<and>
            py_pow_half_on plat var = Inr sd \<and>
            two_decimals m (mean r) \<and> two_decimals med (median r) \<and>
            two_decimals sd (std_dev r)) \<and>
         min_val r \<in> set (map value data) \<and> max_val r \<in> set (map value data) \<and>
         (\<forall>v\<in>set (map value data). py_le (min_val r) v \<and> py_le v (max_val r)) \<and>
         count_val r = int (length data)"
proof -
  from analyze_data_on_Inr [OF assms(1,3)] obtain m med var sd where
    *: "calc_mean_on plat (map value data) (int (length data)) = Inr m"
       "calc_median (py_sorted (map value data)) (int (length data)) = Inr med"
       "calc_variance_on plat (map value data) m (int (length data)) = Inr var"
       "py_pow_half_on plat var = Inr sd"
       "py_round2 m = Inr (mean r)" "py_round2 med = Inr (median r)"
       "py_round2 sd = Inr (std_dev r)"
       "py_min (map value data) = Inr (min_val r)" "py_max (map value data) = Inr (max_val r)"
       "count_val r = int (length data)" by blast
  have fin: "list_all finite_float (map value data)" using assms(2) by (rule finite_input_list_all)
  have "py_sorted (map value data) \<noteq> []"
    using assms(1) by (metis length_py_sorted length_0_conv map_is_Nil_conv)
  from calc_median_eq_spec [OF this] *(2)
  have 1: "spec_median (py_sorted (map value data)) = Inr med" by simp
  have 3: "two_decimals m (mean r)" "two_decimals med (median r)" "two_decimals sd (std_dev r)"
    using *(5,6,7) by (auto intro: py_round2_two_decimals)
  show ?thesis
    using *(1,3,4,10) 1 3 py_min_finite [OF fin *(8)] py_max_finite [OF fin *(9)] by blast
qed


theorem rounded_and_exact_fields_witness:
  "four_points \<noteq> [] \<and> finite_input four_points \<and>
   analyze_data_on reference_platform four_points = Inr four_result \<and>
   min_val four_result \<in> set (map value four_points) \<and>
   max_val four_result \<in> set (map value four_points) \<and>
   py_le (min_val four_result) (Fin 3) \<and> py_le (Fin 3) (max_val four_result) \<and>
   count_val four_result = int (length four_points) \<and>
   (\<exists>sd. two_decimals sd (std_dev four_result))"
proof -
  have h1: "four_points \<noteq> []" by simp
  have h3: "analyze_data_on reference_platform four_points = Inr four_result"
    unfolding analyze_data_on_reference by (rule analyze_data_four)
  have "Fin 3 \<in> set (map value four_points)" by simp
  with rounded_and_exact_fields [OF h1 four_points_finite h3] h1 four_points_finite h3
  show ?thesis by blast
qed

end
